theory Spec2Isabelle
  imports Main "HOL-Library.Word"
begin

unbundle bit_operations_syntax

section \<open>Data model\<close>

type_synonym byte = "8 word"
type_synonym u32 = "32 word"

text \<open>\<open>type pixel [4]byte\<close>: the four components in the order r, g, b, a.\<close>

type_synonym pixel = "byte \<times> byte \<times> byte \<times> byte"

record Header =
  magic :: "byte list"
  width :: u32
  height :: u32
  channels :: byte
  colorspace :: byte

definition qoi_INDEX :: byte where "qoi_INDEX = 0x00"
definition qoi_DIFF :: byte where "qoi_DIFF = 0x40"
definition qoi_LUMA :: byte where "qoi_LUMA = 0x80"
definition qoi_RUN :: byte where "qoi_RUN = 0xC0"
definition qoi_RGB :: byte where "qoi_RGB = 0xFE"
definition qoi_RGBA :: byte where "qoi_RGBA = 0xFF"
definition qoi_MASK_2 :: byte where "qoi_MASK_2 = 0xC0"

definition qoiEnd :: "byte list" where
  "qoiEnd = [0, 0, 0, 0, 0, 0, 0, 1]"

text \<open>The bytes of the string \<open>"qoif"\<close>.\<close>

definition qoiMagic :: "byte list" where
  "qoiMagic = [0x71, 0x6F, 0x69, 0x66]"

definition qoiPixelsMax :: int where
  "qoiPixelsMax = 400000000"

definition qoi_COLOR_HASH :: "byte \<Rightarrow> byte \<Rightarrow> byte \<Rightarrow> byte \<Rightarrow> byte" where
  "qoi_COLOR_HASH r g b a = r * 3 + g * 5 + b * 7 + a * 11"

text \<open>\<open>var index [64]pixel\<close>: sixty-four zero pixels.\<close>

definition index0 :: "pixel list" where
  "index0 = replicate 64 (0, 0, 0, 0)"

text \<open>The slot \<open>int(qoi_COLOR_HASH(px[0], px[1], px[2], px[3])) & 0b111111\<close>.\<close>

definition index_pos_of :: "pixel \<Rightarrow> nat" where
  "index_pos_of px = (case px of (r, g, b, a) \<Rightarrow> unat (qoi_COLOR_HASH r g b a AND 0x3F))"

section \<open>Errors and readers\<close>

text \<open>
  The input stream is the list of the bytes not read yet. On such a reader the only
  errors are \<open>io.EOF\<close> and \<open>io.ErrUnexpectedEOF\<close>.
\<close>

datatype io_error = EOF | ErrUnexpectedEOF

datatype header_error =
    CouldNotReadMagic io_error
  | CouldNotReadWidth io_error
  | CouldNotReadHeight io_error
  | CouldNotReadChannels io_error
  | CouldNotReadColorspace io_error
  | BadMagic
  | InvalidChannels byte
  | InvalidColorspace byte

datatype error =
    CouldNotDecodeHeader header_error
  | DestTooSmall int int
  | UnexpectedEOFAfter nat nat
  | IOError io_error
  | HeaderError header_error
  | BadImageSize0
  | TooManyPixels
  | BadSrcLen
  | PanicSliceBounds

text \<open>\<open>ReadByte\<close> of a buffered reader: the next byte, or \<open>io.EOF\<close>.\<close>

definition ReadByte :: "byte list \<Rightarrow> io_error + (byte \<times> byte list)" where
  "ReadByte bs = (case bs of [] \<Rightarrow> Inl EOF | x # xs \<Rightarrow> Inr (x, xs))"

text \<open>
  \<open>io.ReadFull\<close> (and \<open>binary.Read\<close>, which calls it) for \<open>n\<close> bytes: \<open>io.EOF\<close> when no
  byte could be read, \<open>io.ErrUnexpectedEOF\<close> when some but not all could; the bytes read
  before the failure are consumed.
\<close>

definition ReadFull :: "nat \<Rightarrow> byte list \<Rightarrow> (io_error + byte list) \<times> byte list" where
  "ReadFull n bs =
     (if n \<le> length bs then (Inr (take n bs), drop n bs)
      else if bs = [] then (Inl EOF, [])
      else (Inl ErrUnexpectedEOF, []))"

text \<open>Big-endian value of a byte sequence, as \<open>binary.BigEndian\<close> reads a \<open>uint32\<close>.\<close>

definition be_u32 :: "byte list \<Rightarrow> u32" where
  "be_u32 bs = foldl (\<lambda>acc b. push_bit 8 acc OR ucast b) 0 bs"

text \<open>The four bytes \<open>binary.Write(out, binary.BigEndian, v)\<close> writes for a \<open>uint32\<close>.\<close>

definition put_u32 :: "u32 \<Rightarrow> byte list" where
  "put_u32 v = [ucast (drop_bit 24 v), ucast (drop_bit 16 v), ucast (drop_bit 8 v), ucast v]"

section \<open>DecodeHeader\<close>

definition DecodeHeader :: "byte list \<Rightarrow> (header_error + Header) \<times> byte list" where
  "DecodeHeader r =
     (case ReadFull 4 r of
        (Inl e, r1) \<Rightarrow> (Inl (CouldNotReadMagic e), r1)
      | (Inr m, r1) \<Rightarrow>
     (case ReadFull 4 r1 of
        (Inl e, r2) \<Rightarrow> (Inl (CouldNotReadWidth e), r2)
      | (Inr w, r2) \<Rightarrow>
     (case ReadFull 4 r2 of
        (Inl e, r3) \<Rightarrow> (Inl (CouldNotReadHeight e), r3)
      | (Inr h, r3) \<Rightarrow>
     (case ReadFull 1 r3 of
        (Inl e, r4) \<Rightarrow> (Inl (CouldNotReadChannels e), r4)
      | (Inr c, r4) \<Rightarrow>
     (case ReadFull 1 r4 of
        (Inl e, r5) \<Rightarrow> (Inl (CouldNotReadColorspace e), r5)
      | (Inr cs, r5) \<Rightarrow>
          (if m \<noteq> qoiMagic then (Inl BadMagic, r5)
           else if hd c < 3 \<or> hd c > 4 then (Inl (InvalidChannels (hd c)), r5)
           else if hd cs \<noteq> 0 \<and> hd cs \<noteq> 1 then (Inl (InvalidColorspace (hd cs)), r5)
           else (Inr \<lparr>magic = m, width = be_u32 w, height = be_u32 h,
                      channels = hd c, colorspace = hd cs\<rparr>, r5)))))))"

section \<open>Decode\<close>

text \<open>
  The \<open>switch\<close> on the tag byte \<open>b1\<close>, in the order of its cases. \<open>b\<close> is the buffered
  reader after \<open>b1\<close>; the result is the reader, the pixel and the run counter after the
  case, or the error of the read the case makes.
\<close>

definition dispatch ::
  "byte \<Rightarrow> byte list \<Rightarrow> pixel \<Rightarrow> pixel list \<Rightarrow> nat \<Rightarrow> io_error + (byte list \<times> pixel \<times> nat)" where
  "dispatch b1 b px index run =
     (case px of (r, g, bl, a) \<Rightarrow>
        if b1 = qoi_RGB then
          (case ReadFull 3 b of
             (Inl e, b') \<Rightarrow> Inl e
           | (Inr bs, b') \<Rightarrow> Inr (b', (bs ! 0, bs ! 1, bs ! 2, a), run))
        else if b1 = qoi_RGBA then
          (case ReadFull 4 b of
             (Inl e, b') \<Rightarrow> Inl e
           | (Inr bs, b') \<Rightarrow> Inr (b', (bs ! 0, bs ! 1, bs ! 2, bs ! 3), run))
        else if b1 AND qoi_MASK_2 = qoi_INDEX then
          Inr (b, index ! unat b1, run)
        else if b1 AND qoi_MASK_2 = qoi_DIFF then
          Inr (b, (r + ((drop_bit 4 b1 AND 0x03) - 2),
                   g + ((drop_bit 2 b1 AND 0x03) - 2),
                   bl + ((b1 AND 0x03) - 2), a), run)
        else if b1 AND qoi_MASK_2 = qoi_LUMA then
          (case ReadByte b of
             Inl e \<Rightarrow> Inl e
           | Inr (b2, b') \<Rightarrow>
               (let vg = (b1 AND 0x3F) - 32
                in Inr (b', (r + (vg - 8 + (drop_bit 4 b2 AND 0x0F)),
                            g + vg,
                            bl + (vg - 8 + (b2 AND 0x0F)), a), run)))
        else if b1 AND qoi_MASK_2 = qoi_RUN then
          Inr (b, px, unat (b1 AND 0x3F))
        else Inr (b, (255, 0, 255, 255), run))"

text \<open>
  The \<open>else\<close> branch of the loop body: read the tag byte, dispatch on it, then store the
  pixel in the cache. \<open>TagEOF\<close> is \<open>io.EOF\<close> from the read of the tag byte.
\<close>

datatype chunk_error = TagEOF | ChunkIO io_error

definition read_chunk ::
  "byte list \<Rightarrow> pixel \<Rightarrow> pixel list \<Rightarrow> nat
     \<Rightarrow> chunk_error + (byte list \<times> pixel \<times> pixel list \<times> nat)" where
  "read_chunk b px index run =
     (case ReadByte b of
        Inl e \<Rightarrow> Inl TagEOF
      | Inr (b1, b') \<Rightarrow>
          (case dispatch b1 b' px index run of
             Inl e \<Rightarrow> Inl (ChunkIO e)
           | Inr (b'', px', run') \<Rightarrow>
               Inr (b'', px', index[index_pos_of px' := px'], run')))"

text \<open>
  The state of the decode loop: the reader, the current pixel, the cache, the run
  counter, the number of pixels decoded, and the destination as the bytes already
  written (\<open>done\<close>) followed by the slice \<open>dest\<close> still ahead.
\<close>

datatype dstate =
  DState (d_b: "byte list") (d_px: pixel) (d_index: "pixel list") (d_run: nat)
         (d_numDecodedPixels: nat) (d_done: "byte list") (d_dest: "byte list")

definition px_bytes :: "pixel \<Rightarrow> byte list" where
  "px_bytes px = (case px of (r, g, b, a) \<Rightarrow> [r, g, b, a])"

text \<open>
  \<open>copy(dest[:bytesPerPixel], px[:bytesPerPixel]); dest = dest[bytesPerPixel:]\<close>. Slicing
  beyond the end of \<open>dest\<close> panics.
\<close>

definition emit_px :: "nat \<Rightarrow> pixel \<Rightarrow> byte list \<Rightarrow> byte list \<Rightarrow> (byte list \<times> byte list) option" where
  "emit_px bpp px dn dest =
     (if length dest < bpp then None
      else Some (dn @ take bpp (px_bytes px), drop bpp dest))"

text \<open>One iteration of \<open>for numDecodedPixels < numPixels\<close> in \<open>Decode\<close>.\<close>

definition decode_iter :: "nat \<Rightarrow> nat \<Rightarrow> dstate \<Rightarrow> error + dstate" where
  "decode_iter numPixels bpp st =
     (case st of DState b px index run n dn dest \<Rightarrow>
        (case (if run > 0 then Inr (b, px, index, run - 1)
               else read_chunk b px index run) of
           Inl TagEOF \<Rightarrow> Inl (UnexpectedEOFAfter n numPixels)
         | Inl (ChunkIO e) \<Rightarrow> Inl (IOError e)
         | Inr (b', px', index', run') \<Rightarrow>
             (case emit_px bpp px' dn dest of
                None \<Rightarrow> Inl PanicSliceBounds
              | Some (dn', dest') \<Rightarrow> Inr (DState b' px' index' run' (n + 1) dn' dest'))))"

function decode_loop :: "nat \<Rightarrow> nat \<Rightarrow> dstate \<Rightarrow> error option \<times> dstate" where
  "decode_loop numPixels bpp st =
     (if d_numDecodedPixels st < numPixels then
        (case decode_iter numPixels bpp st of
           Inl e \<Rightarrow> (Some e, st)
         | Inr st' \<Rightarrow> decode_loop numPixels bpp st')
      else (None, st))"
  by pat_completeness auto

lemma decode_iter_count:
  "decode_iter numPixels bpp st = Inr st' \<Longrightarrow>
     d_numDecodedPixels st' = d_numDecodedPixels st + 1"
  by (auto simp: decode_iter_def split: dstate.splits sum.splits chunk_error.splits
        option.splits if_splits)

termination decode_loop
  by (relation "measure (\<lambda>(numPixels, bpp, st). numPixels - d_numDecodedPixels st)")
     (auto dest: decode_iter_count)

record decode_result =
  bytesWritten :: int
  res_width :: u32
  res_height :: u32
  includesAlpha :: bool
  err :: "error option"
  dest_after :: "byte list"
  reader_after :: "byte list"

definition Decode :: "byte list \<Rightarrow> byte list \<Rightarrow> decode_result" where
  "Decode reader dest =
     (case DecodeHeader reader of
        (Inl e, r') \<Rightarrow>
          \<lparr>bytesWritten = 0, res_width = 0, res_height = 0, includesAlpha = False,
           err = Some (CouldNotDecodeHeader e), dest_after = dest, reader_after = r'\<rparr>
      | (Inr header, r') \<Rightarrow>
          (let numPixels = width header * height header in
           if numPixels = 0 then
             \<lparr>bytesWritten = 0, res_width = 0, res_height = 0, includesAlpha = False,
              err = None, dest_after = dest, reader_after = r'\<rparr>
           else
            (let bytesPerPixel = channels header in
             if numPixels > (of_nat (length dest) :: u32) div ucast bytesPerPixel then
               \<lparr>bytesWritten = 0, res_width = 0, res_height = 0, includesAlpha = False,
                err = Some (DestTooSmall (int (length dest))
                              (uint (numPixels * ucast bytesPerPixel))),
                dest_after = dest, reader_after = r'\<rparr>
             else
              (case decode_loop (unat numPixels) (unat bytesPerPixel)
                      (DState r' (0, 0, 0, 255) index0 0 0 [] dest) of
                 (e, st) \<Rightarrow>
                   \<lparr>bytesWritten =
                      uint ((of_nat (d_numDecodedPixels st) :: u32) * ucast bytesPerPixel),
                    res_width = width header, res_height = height header,
                    includesAlpha = (channels header = 4), err = e,
                    dest_after = d_done st @ d_dest st, reader_after = d_b st\<rparr>))))"

section \<open>Encode\<close>

text \<open>
  The chunk written for a pixel that differs from the previous one and missed the cache:
  DIFF, LUMA or RGB when alpha is unchanged, RGBA otherwise. \<open>vr\<close>, \<open>vg\<close>, \<open>vb\<close>,
  \<open>vg_r\<close> and \<open>vg_b\<close> are \<open>int8\<close>: bytes compared through \<open>sint\<close>.
\<close>

definition encode_delta :: "pixel \<Rightarrow> pixel \<Rightarrow> byte list" where
  "encode_delta px px_prev =
     (case (px, px_prev) of ((r, g, b, a), (pr, pg, pb, pa)) \<Rightarrow>
        if a = pa then
          (let vr = (word_of_int (uint r - uint pr) :: byte);
               vg = (word_of_int (uint g - uint pg) :: byte);
               vb = (word_of_int (uint b - uint pb) :: byte);
               vg_r = vr - vg;
               vg_b = vb - vg
           in if sint vr > -3 \<and> sint vr < 2 \<and> sint vg > -3 \<and> sint vg < 2
                 \<and> sint vb > -3 \<and> sint vb < 2 then
                [qoi_DIFF OR (push_bit 4 (vr + 2) OR push_bit 2 (vg + 2) OR (vb + 2))]
              else if sint vg_r > -9 \<and> sint vg_r < 8 \<and> sint vg > -33 \<and> sint vg < 32
                      \<and> sint vg_b > -9 \<and> sint vg_b < 8 then
                [qoi_LUMA OR (vg + 32), push_bit 4 (vg_r + 8) OR (vg_b + 8)]
              else [qoi_RGB, r, g, b])
        else [qoi_RGBA, r, g, b, a])"

text \<open>
  The state of the encode loop: the cache, the previous pixel, the run counter and the
  bytes written to \<open>out\<close> so far.
\<close>

datatype estate =
  EState (e_index: "pixel list") (e_px_prev: pixel) (e_run: nat) (e_out: "byte list")

text \<open>The body of the inner loop for the pixel \<open>px\<close>, up to \<open>px_prev = px\<close>.\<close>

definition encode_pixel :: "pixel \<Rightarrow> bool \<Rightarrow> estate \<Rightarrow> estate" where
  "encode_pixel px last_pixel st =
     (case st of EState index px_prev run out \<Rightarrow>
        if px = px_prev then
          (let run = run + 1
           in if run = 62 \<or> last_pixel
              then EState index px 0 (out @ [qoi_RUN OR of_nat (run - 1)])
              else EState index px run out)
        else
          (let out = (if run > 0 then out @ [qoi_RUN OR of_nat (run - 1)] else out);
               index_pos = (case px of (r, g, b, a) \<Rightarrow> qoi_COLOR_HASH r g b a AND 0x3F)
           in if index ! unat index_pos = px
              then EState index px 0 (out @ [qoi_INDEX OR index_pos])
              else EState (index[unat index_pos := px]) px 0
                     (out @ encode_delta px px_prev)))"

text \<open>Go's integer division truncates towards zero.\<close>

definition go_div :: "int \<Rightarrow> int \<Rightarrow> int" where
  "go_div a b = sgn a * sgn b * (\<bar>a\<bar> div \<bar>b\<bar>)"

text \<open>
  The pixel of \<open>src\<close> at column \<open>x\<close> of row \<open>y\<close>. The length check of \<open>Encode\<close> keeps
  every index below \<open>len(src)\<close>.
\<close>

definition src_px :: "byte list \<Rightarrow> int \<Rightarrow> byte \<Rightarrow> nat \<Rightarrow> nat \<Rightarrow> pixel" where
  "src_px src w bytesPerPixel y x =
     (let i = nat ((int y * w + int x) * uint bytesPerPixel)
      in if bytesPerPixel = 4
         then (src ! i, src ! (i + 1), src ! (i + 2), src ! (i + 3))
         else (src ! i, src ! (i + 1), src ! (i + 2), 255))"

text \<open>
  \<open>Encode\<close> on \<open>src\<close>, \<open>width\<close> (here \<open>w\<close>) and \<open>height\<close> (here \<open>h\<close>): the error, or the
  bytes that reach the writer. \<open>w\<close> and \<open>h\<close> are Go \<open>int\<close>s, taken here as integers (exact
  while \<open>w * h * 4\<close> stays within 64 bits).
\<close>

definition Encode :: "byte list \<Rightarrow> int \<Rightarrow> int \<Rightarrow> error + byte list" where
  "Encode src w h =
     (let numPixels = w * h in
      if numPixels = 0 then Inl BadImageSize0
      else if numPixels \<ge> qoiPixelsMax then Inl TooManyPixels
      else
       (let bytesPerPixel = (word_of_int (go_div (int (length src)) (w * h)) :: byte) in
        if w * h * uint bytesPerPixel \<noteq> int (length src)
           \<or> (bytesPerPixel \<noteq> 3 \<and> bytesPerPixel \<noteq> 4)
        then Inl BadSrcLen
        else
         (let out = qoiMagic @ put_u32 (word_of_int w) @ put_u32 (word_of_int h)
                      @ [bytesPerPixel] @ [0];
              st = fold (\<lambda>y. fold (\<lambda>x. encode_pixel (src_px src w bytesPerPixel y x)
                                        (int x = w - 1 \<and> int y = h - 1))
                                 [0..<nat w])
                        [0..<nat h] (EState index0 (0, 0, 0, 255) 0 out)
          in Inr (e_out st @ put_u32 0 @ put_u32 1))))"

section \<open>The image-based interface\<close>

text \<open>
  The variant of the codec that works on images: \<open>Decode\<close> into a fresh buffer,
  \<open>DecodeIntoBuffer\<close>, \<open>decodeBody\<close> and \<open>Encode\<close> of an \<open>image.Image\<close>. Its
  \<open>DecodeHeader\<close>, its loop bodies and its constants are those above.
\<close>

record Image =
  Pix :: "byte list"
  Width :: int
  Height :: int
  Channels :: byte
  Colorspace :: byte

text \<open>\<open>(*Image).At\<close>: the colour as \<open>color.NRGBA\<close>; an index beyond \<open>Pix\<close> panics.\<close>

definition Image_At :: "Image \<Rightarrow> int \<Rightarrow> int \<Rightarrow> pixel option" where
  "Image_At img x y =
     (let i = (y * Width img + x) * uint (Channels img);
          n = int (length (Pix img));
          at = (\<lambda>j. Pix img ! nat j)
      in if Channels img = 4 then
           (if 0 \<le> i \<and> i + 3 < n then Some (at i, at (i + 1), at (i + 2), at (i + 3))
            else None)
         else
           (if 0 \<le> i \<and> i + 2 < n then Some (at i, at (i + 1), at (i + 2), 255)
            else None))"

text \<open>
  \<open>decodeBody\<close>: \<open>numPixels := len(dest) / bytesPerPixel\<close>, then the loop of \<open>Decode\<close>
  with the same body. The result is the error, the destination and the reader.
\<close>

definition decodeBody ::
  "byte list \<Rightarrow> byte list \<Rightarrow> nat \<Rightarrow> error option \<times> byte list \<times> byte list" where
  "decodeBody r dest bytesPerPixel =
     (case decode_loop (length dest div bytesPerPixel) bytesPerPixel
             (DState r (0, 0, 0, 255) index0 0 0 [] dest) of
        (e, st) \<Rightarrow> (e, d_done st @ d_dest st, d_b st))"

text \<open>\<open>Decode(reader)\<close> of the image-based interface, which allocates \<open>Pix\<close>.\<close>

definition Decode_alloc :: "byte list \<Rightarrow> Image option \<times> error option \<times> byte list" where
  "Decode_alloc reader =
     (case DecodeHeader reader of
        (Inl e, r') \<Rightarrow> (None, Some (HeaderError e), r')
      | (Inr header, r') \<Rightarrow>
          (let pix = replicate
                       (unat (width header * height header * ucast (channels header))) 0
           in case decodeBody r' pix (unat (channels header)) of
                (e, pix', r'') \<Rightarrow>
                  (Some \<lparr>Pix = pix', Width = uint (width header),
                         Height = uint (height header), Channels = channels header,
                         Colorspace = colorspace header\<rparr>, e, r'')))"

record into_result =
  img :: "Image option"
  into_err :: "error option"
  into_dest :: "byte list"
  into_reader :: "byte list"

definition DecodeIntoBuffer :: "byte list \<Rightarrow> byte list \<Rightarrow> into_result" where
  "DecodeIntoBuffer r dest =
     (case DecodeHeader r of
        (Inl e, r') \<Rightarrow>
          \<lparr>img = None, into_err = Some (CouldNotDecodeHeader e), into_dest = dest,
           into_reader = r'\<rparr>
      | (Inr header, r') \<Rightarrow>
          (let numPixels = uint (width header * height header) in
           if numPixels = 0 then
             \<lparr>img = None, into_err = None, into_dest = dest, into_reader = r'\<rparr>
           else
            (let bytesPerPixel = uint (channels header) in
             if numPixels * bytesPerPixel > int (length dest) then
               \<lparr>img = None,
                into_err = Some (DestTooSmall (int (length dest)) (numPixels * bytesPerPixel)),
                into_dest = dest, into_reader = r'\<rparr>
             else
              (case decodeBody r' (take (nat (numPixels * bytesPerPixel)) dest)
                      (unat (channels header)) of
                 (e, pix', r'') \<Rightarrow>
                   \<lparr>img = Some \<lparr>Pix = pix', Width = uint (width header),
                                Height = uint (height header), Channels = channels header,
                                Colorspace = colorspace header\<rparr>,
                    into_err = e,
                    into_dest = pix' @ drop (nat (numPixels * bytesPerPixel)) dest,
                    into_reader = r''\<rparr>))))"

text \<open>
  An \<open>image.Image\<close> as \<open>Encode\<close> and \<open>isOpaqueImage\<close> see it: its bounds, for each point
  the colour after \<open>color.NRGBAModel.Convert\<close> and the alpha that \<open>RGBA()\<close> returns, and
  the answer of its \<open>Opaque()\<close> method when it has one.
\<close>

record image_src =
  Min_X :: int
  Min_Y :: int
  Max_X :: int
  Max_Y :: int
  At_NRGBA :: "int \<Rightarrow> int \<Rightarrow> pixel"
  At_alpha :: "int \<Rightarrow> int \<Rightarrow> u32"
  Opaque :: "bool option"

definition isOpaqueImage :: "image_src \<Rightarrow> bool" where
  "isOpaqueImage im =
     (case Opaque im of
        Some b \<Rightarrow> b
      | None \<Rightarrow>
          list_all (\<lambda>y. list_all (\<lambda>x. At_alpha im x y = 0xFFFF) [Min_X im..Max_X im - 1])
            [Min_Y im..Max_Y im - 1])"

definition Encode_image :: "image_src \<Rightarrow> error + byte list" where
  "Encode_image im =
     (let minX = Min_X im; maxX = Max_X im; minY = Min_Y im; maxY = Max_Y im;
          w = maxX - minX; h = maxY - minY;
          numPixels = w * h in
      if numPixels = 0 then Inl BadImageSize0
      else if numPixels \<ge> qoiPixelsMax then Inl TooManyPixels
      else
       (let bytesPerPixel = (if \<not> isOpaqueImage im then 3 + 1 else (3 :: int));
            out = qoiMagic @ put_u32 (word_of_int w) @ put_u32 (word_of_int h)
                    @ [word_of_int bytesPerPixel] @ [0];
            st = fold (\<lambda>y. fold (\<lambda>x. encode_pixel (At_NRGBA im x y)
                                      (x = w - 1 \<and> y = h - 1))
                               [minX..maxX - 1])
                      [minY..maxY - 1] (EState index0 (0, 0, 0, 255) 0 out)
        in Inr (e_out st @ put_u32 0 @ put_u32 1)))"

text \<open>A \<open>*Image\<close> passed as an \<open>image.Image\<close>: bounds from the origin, no \<open>Opaque()\<close>.\<close>

definition image_of :: "Image \<Rightarrow> image_src" where
  "image_of i =
     \<lparr>Min_X = 0, Min_Y = 0, Max_X = Width i, Max_Y = Height i,
      At_NRGBA = (\<lambda>x y. the (Image_At i x y)),
      At_alpha = (\<lambda>x y. case the (Image_At i x y) of (r, g, b, a) \<Rightarrow> ucast a * 0x101),
      Opaque = None\<rparr>"

section \<open>Auxiliary notions\<close>

text \<open>The error of a read that found too few bytes.\<close>

definition eof_kind :: "byte list \<Rightarrow> io_error" where
  "eof_kind bs = (if bs = [] then EOF else ErrUnexpectedEOF)"

text \<open>The two range tests of the encoder on its signed differences.\<close>

definition diff_ok :: "byte \<Rightarrow> byte \<Rightarrow> byte \<Rightarrow> bool" where
  "diff_ok vr vg vb \<longleftrightarrow>
     sint vr > -3 \<and> sint vr < 2 \<and> sint vg > -3 \<and> sint vg < 2 \<and> sint vb > -3 \<and> sint vb < 2"

definition luma_ok :: "byte \<Rightarrow> byte \<Rightarrow> byte \<Rightarrow> bool" where
  "luma_ok vg vg_r vg_b \<longleftrightarrow>
     sint vg_r > -9 \<and> sint vg_r < 8 \<and> sint vg > -33 \<and> sint vg < 32
       \<and> sint vg_b > -9 \<and> sint vg_b < 8"

text \<open>
  The two nested loops of \<open>Encode\<close> as one pass over the pixels in raster order; the
  last pixel is the one with nothing after it.
\<close>

fun encode_pixels :: "pixel list \<Rightarrow> estate \<Rightarrow> estate" where
  "encode_pixels [] st = st"
| "encode_pixels (p # ps) st = encode_pixels ps (encode_pixel p (ps = []) st)"

text \<open>The RUN chunk that closes a pending run of \<open>r\<close> pixels, if there is one.\<close>

definition run_flush :: "nat \<Rightarrow> byte list" where
  "run_flush r = (if r > 0 then [qoi_RUN OR of_nat (r - 1)] else [])"

text \<open>The bytes the decoder writes for a sequence of pixels.\<close>

definition out_bytes :: "nat \<Rightarrow> pixel list \<Rightarrow> byte list" where
  "out_bytes bpp ps = concat (map (\<lambda>p. take bpp (px_bytes p)) ps)"

text \<open>
  How the cache of the encoder and the cache of the decoder are related between two
  chunks: every slot of the encoder that holds a pixel hashing to that slot is the same
  in the decoder, and the slot of the previous pixel, when it holds such a pixel, holds
  the previous pixel.
\<close>

definition cache_ok :: "pixel list \<Rightarrow> pixel \<Rightarrow> nat \<Rightarrow> pixel list \<Rightarrow> bool" where
  "cache_ok idx prev r didx \<longleftrightarrow>
     length idx = 64 \<and> length didx = 64 \<and> r < 62
     \<and> (\<forall>i<64. index_pos_of (idx ! i) = i \<longrightarrow> didx ! i = idx ! i)
     \<and> (index_pos_of (idx ! index_pos_of prev) = index_pos_of prev \<longrightarrow>
          idx ! index_pos_of prev = prev)"

text \<open>The pixels of \<open>src\<close> in raster order.\<close>

definition pixels_of :: "byte list \<Rightarrow> int \<Rightarrow> byte \<Rightarrow> nat \<Rightarrow> nat \<Rightarrow> pixel list" where
  "pixels_of src w bpp W H = concat (map (\<lambda>y. map (src_px src w bpp y) [0..<W]) [0..<H])"

text \<open>The chunks \<open>Encode\<close> writes between the header and the end marker.\<close>

definition chunks_of :: "byte list \<Rightarrow> int \<Rightarrow> int \<Rightarrow> byte \<Rightarrow> byte list" where
  "chunks_of src w h bpp =
     e_out (encode_pixels (pixels_of src w bpp (nat w) (nat h)) (EState index0 (0, 0, 0, 255) 0 []))"

section \<open>Bytes, tags and biased differences\<close>

lemma byte_cases_lt:
  fixes v :: byte
  assumes "unat v < n"
  shows "v \<in> of_nat ` {0..<n}"
proof -
  have "v = of_nat (unat v)" by simp
  with assms show ?thesis by (metis atLeastLessThan_iff image_eqI zero_le)
qed

lemma byte_lt_4: "unat (v::byte) < 4 \<Longrightarrow> v = 0 \<or> v = 1 \<or> v = 2 \<or> v = 3"
  by (drule byte_cases_lt) (simp add: atLeastLessThan_upt upt_rec numeral_nat)

lemma byte_lt_16: "unat (v::byte) < 16 \<Longrightarrow> v = 0 \<or> v = 1 \<or> v = 2 \<or> v = 3 \<or> v = 4 \<or> v = 5 \<or> v = 6 \<or> v = 7 \<or> v = 8 \<or> v = 9 \<or> v = 10 \<or> v = 11 \<or> v = 12 \<or> v = 13 \<or> v = 14 \<or> v = 15"
  by (drule byte_cases_lt) (simp add: atLeastLessThan_upt upt_rec numeral_nat)

lemma byte_lt_64: "unat (v::byte) < 64 \<Longrightarrow> v = 0 \<or> v = 1 \<or> v = 2 \<or> v = 3 \<or> v = 4 \<or> v = 5 \<or> v = 6 \<or> v = 7 \<or> v = 8 \<or> v = 9 \<or> v = 10 \<or> v = 11 \<or> v = 12 \<or> v = 13 \<or> v = 14 \<or> v = 15 \<or> v = 16 \<or> v = 17 \<or> v = 18 \<or> v = 19 \<or> v = 20 \<or> v = 21 \<or> v = 22 \<or> v = 23 \<or> v = 24 \<or> v = 25 \<or> v = 26 \<or> v = 27 \<or> v = 28 \<or> v = 29 \<or> v = 30 \<or> v = 31 \<or> v = 32 \<or> v = 33 \<or> v = 34 \<or> v = 35 \<or> v = 36 \<or> v = 37 \<or> v = 38 \<or> v = 39 \<or> v = 40 \<or> v = 41 \<or> v = 42 \<or> v = 43 \<or> v = 44 \<or> v = 45 \<or> v = 46 \<or> v = 47 \<or> v = 48 \<or> v = 49 \<or> v = 50 \<or> v = 51 \<or> v = 52 \<or> v = 53 \<or> v = 54 \<or> v = 55 \<or> v = 56 \<or> v = 57 \<or> v = 58 \<or> v = 59 \<or> v = 60 \<or> v = 61 \<or> v = 62 \<or> v = 63"
  by (drule byte_cases_lt) (simp add: atLeastLessThan_upt upt_rec numeral_nat)

lemma sint_bias:
  fixes v :: byte
  assumes "- k \<le> sint v" "sint v < k" "0 \<le> k" "k \<le> 64"
  shows "unat (v + word_of_int k) < nat (2 * k)"
proof -
  define i where "i = sint v"
  have v: "v = word_of_int i"
    by (simp add: i_def)
  have "uint (word_of_int i + word_of_int k :: byte) = (i + k) mod 2 ^ 8"
    by (simp only: wi_hom_add uint_word_of_int take_bit_eq_mod) simp
  also have "\<dots> = i + k"
    by (rule mod_pos_pos_trivial) (use assms in \<open>auto simp: i_def\<close>)
  finally have "uint (word_of_int i + word_of_int k :: byte) = i + k" .
  with assms have "uint (v + word_of_int k) < 2 * k"
    unfolding v by (simp add: i_def)
  then show ?thesis
    by (simp only: unat_eq_nat_uint) (use assms in linarith)
qed

lemma bias32: "- 33 < sint (v::byte) \<Longrightarrow> sint v < 32 \<Longrightarrow> unat (v + 32) < 64"
  using sint_bias [of 32 v] by simp

lemma bias8: "- 9 < sint (v::byte) \<Longrightarrow> sint v < 8 \<Longrightarrow> unat (v + 8) < 16"
  using sint_bias [of 8 v] by simp

lemma bias2: "- 3 < sint (v::byte) \<Longrightarrow> sint v < 2 \<Longrightarrow> unat (v + 2) < 4"
  using sint_bias [of 2 v] by simp

lemma luma_tag_bits:
  "unat (u::byte) < 64 \<Longrightarrow>
     (0x80 OR u) AND 0xC0 = 0x80 \<and> (0x80 OR u) AND 0x3F = u
     \<and> 0x80 OR u \<noteq> 0xFE \<and> 0x80 OR u \<noteq> 0xFF"
  by (drule byte_lt_64) (elim disjE; simp)

lemma nibble_hi:
  "unat (u::byte) < 16 \<Longrightarrow> unat (w::byte) < 16 \<Longrightarrow>
     drop_bit 4 (push_bit 4 u OR w) AND 0x0F = u"
  by (drule byte_lt_16)+ (elim disjE; simp)

lemma nibble_lo:
  "unat (u::byte) < 16 \<Longrightarrow> unat (w::byte) < 16 \<Longrightarrow>
     (push_bit 4 u OR w) AND 0x0F = w"
  by (drule byte_lt_16)+ (elim disjE; simp)

lemma diff_tag_bits:
  "unat (x::byte) < 4 \<Longrightarrow> unat (y::byte) < 4 \<Longrightarrow> unat (z::byte) < 4 \<Longrightarrow>
     (0x40 OR (push_bit 4 x OR push_bit 2 y OR z)) AND 0xC0 = 0x40
     \<and> 0x40 OR (push_bit 4 x OR push_bit 2 y OR z) \<noteq> 0xFE
     \<and> 0x40 OR (push_bit 4 x OR push_bit 2 y OR z) \<noteq> 0xFF
     \<and> drop_bit 4 (0x40 OR (push_bit 4 x OR push_bit 2 y OR z)) AND 0x03 = x
     \<and> drop_bit 2 (0x40 OR (push_bit 4 x OR push_bit 2 y OR z)) AND 0x03 = y
     \<and> (0x40 OR (push_bit 4 x OR push_bit 2 y OR z)) AND 0x03 = z"
  by (drule byte_lt_4)+ (elim disjE; simp)

lemma index_tag_bits:
  "((p::byte) AND 0x3F) AND 0xC0 = 0 \<and> p AND 0x3F \<noteq> 0xFE \<and> p AND 0x3F \<noteq> 0xFF
    \<and> unat (p AND 0x3F) < 64"
proof -
  have "p AND 0x3F \<le> 0x3F" by (rule word_and_le1)
  then have lt: "unat (p AND 0x3F) < 64" by (simp add: word_le_nat_alt)
  from byte_lt_64 [OF lt] lt show ?thesis by (elim disjE; simp)
qed

lemma run_tag_bits_word:
  assumes "unat (u::byte) < 62"
  shows "(0xC0 OR u) AND 0xC0 = 0xC0 \<and> 0xC0 OR u \<noteq> 0xFE \<and> 0xC0 OR u \<noteq> 0xFF
     \<and> (0xC0 OR u) AND 0x3F = u"
proof -
  from assms have "unat u < 64" by simp
  from byte_lt_64 [OF this] assms show ?thesis by (elim disjE; simp)
qed

lemma run_tag_bits:
  assumes "n < 62"
  shows "(0xC0 OR (of_nat n :: byte)) AND 0xC0 = 0xC0
     \<and> 0xC0 OR (of_nat n :: byte) \<noteq> 0xFE \<and> 0xC0 OR (of_nat n :: byte) \<noteq> 0xFF
     \<and> unat ((0xC0 OR (of_nat n :: byte)) AND 0x3F) = n"
proof -
  from assms have u: "unat (of_nat n :: byte) = n"
    by (simp add: unat_of_nat take_bit_nat_eq_self)
  with assms have "unat (of_nat n :: byte) < 62" by simp
  from run_tag_bits_word [OF this] u show ?thesis by simp
qed

lemma ReadByte_Cons [simp]: "ReadByte (x # xs) = Inr (x, xs)"
  by (simp add: ReadByte_def)

lemma ReadByte_Nil [simp]: "ReadByte [] = Inl EOF"
  by (simp add: ReadByte_def)

lemma ReadFull_append:
  "length bs = n \<Longrightarrow> ReadFull n (bs @ rest) = (Inr bs, rest)"
  by (simp add: ReadFull_def)

lemma encode_delta_cases:
  "encode_delta (r, g, b, a) (pr, pg, pb, pa) =
     (if a \<noteq> pa then [qoi_RGBA, r, g, b, a]
      else if diff_ok (r - pr) (g - pg) (b - pb) then
        [qoi_DIFF OR (push_bit 4 (r - pr + 2) OR push_bit 2 (g - pg + 2) OR (b - pb + 2))]
      else if luma_ok (g - pg) (r - pr - (g - pg)) (b - pb - (g - pg)) then
        [qoi_LUMA OR (g - pg + 32),
         push_bit 4 (r - pr - (g - pg) + 8) OR (b - pb - (g - pg) + 8)]
      else [qoi_RGB, r, g, b])"
  by (simp add: encode_delta_def diff_ok_def luma_ok_def Let_def)

lemma dispatch_RGB:
  "dispatch qoi_RGB (x # y # z # rest) (r, g, b, a) index run = Inr (rest, (x, y, z, a), run)"
  by (simp add: dispatch_def ReadFull_def)

lemma dispatch_RGBA:
  "dispatch qoi_RGBA (x # y # z # w # rest) px index run = Inr (rest, (x, y, z, w), run)"
  by (cases px) (simp add: dispatch_def ReadFull_def qoi_RGBA_def qoi_RGB_def)

lemma dispatch_INDEX:
  "b1 AND 0xC0 = 0 \<Longrightarrow> dispatch b1 rest px index run = Inr (rest, index ! unat b1, run)"
  by (cases px)
     (auto simp add: dispatch_def qoi_RGBA_def qoi_RGB_def qoi_MASK_2_def qoi_INDEX_def)

lemma dispatch_DIFF:
  "b1 AND 0xC0 = 0x40 \<Longrightarrow>
     dispatch b1 rest (r, g, b, a) index run =
       Inr (rest, (r + ((drop_bit 4 b1 AND 0x03) - 2), g + ((drop_bit 2 b1 AND 0x03) - 2),
                   b + ((b1 AND 0x03) - 2), a), run)"
  by (auto simp add: dispatch_def qoi_RGBA_def qoi_RGB_def qoi_MASK_2_def qoi_INDEX_def
        qoi_DIFF_def)

lemma dispatch_LUMA:
  "b1 AND 0xC0 = 0x80 \<Longrightarrow>
     dispatch b1 (b2 # rest) (r, g, b, a) index run =
       Inr (rest, (r + ((b1 AND 0x3F) - 32 - 8 + (drop_bit 4 b2 AND 0x0F)),
                   g + ((b1 AND 0x3F) - 32),
                   b + ((b1 AND 0x3F) - 32 - 8 + (b2 AND 0x0F)), a), run)"
  by (auto simp add: dispatch_def qoi_RGBA_def qoi_RGB_def qoi_MASK_2_def qoi_INDEX_def
        qoi_DIFF_def qoi_LUMA_def Let_def)

lemma dispatch_RUN:
  "b1 AND 0xC0 = 0xC0 \<Longrightarrow> b1 \<noteq> 0xFE \<Longrightarrow> b1 \<noteq> 0xFF \<Longrightarrow>
     dispatch b1 rest px index run = Inr (rest, px, unat (b1 AND 0x3F))"
  by (cases px)
     (auto simp add: dispatch_def qoi_RGBA_def qoi_RGB_def qoi_MASK_2_def qoi_INDEX_def
        qoi_DIFF_def qoi_LUMA_def qoi_RUN_def)

lemma dispatch_encode_delta:
  "dispatch (hd (encode_delta px prev)) (tl (encode_delta px prev) @ rest) prev index run
     = Inr (rest, px, run)"
proof -
  obtain r g b a where px: "px = (r, g, b, a)" by (cases px) auto
  obtain pr pg pb pa where prev: "prev = (pr, pg, pb, pa)" by (cases prev) auto
  define vr vg vb where "vr = r - pr" and "vg = g - pg" and "vb = b - pb"
  note ed = encode_delta_cases [of r g b a pr pg pb pa, folded vr_def vg_def vb_def]
  consider (rgba) "a \<noteq> pa" | (diff) "a = pa" "diff_ok vr vg vb"
    | (luma) "a = pa" "\<not> diff_ok vr vg vb" "luma_ok vg (vr - vg) (vb - vg)"
    | (rgb) "a = pa" "\<not> diff_ok vr vg vb" "\<not> luma_ok vg (vr - vg) (vb - vg)"
    by blast
  then show ?thesis
  proof cases
    case rgba
    then show ?thesis unfolding px prev ed by (simp add: dispatch_RGBA)
  next
    case diff
    then have "unat (vr + 2) < 4" "unat (vg + 2) < 4" "unat (vb + 2) < 4"
      by (simp_all add: bias2 diff_ok_def)
    note t = diff_tag_bits [OF this]
    define c where "c = 0x40 OR (push_bit 4 (vr + 2) OR push_bit 2 (vg + 2) OR (vb + 2))"
    from t have c: "c AND 0xC0 = 0x40" "drop_bit 4 c AND 0x03 = vr + 2"
      "drop_bit 2 c AND 0x03 = vg + 2" "c AND 0x03 = vb + 2"
      unfolding c_def by blast+
    have "encode_delta px prev = [c]"
      unfolding px prev ed using diff by (simp add: c_def qoi_DIFF_def)
    with diff(1) show ?thesis
      by (simp add: px prev dispatch_DIFF [OF c(1)] c vr_def vg_def vb_def)
  next
    case luma
    then have b: "unat (vg + 32) < 64" "unat (vr - vg + 8) < 16" "unat (vb - vg + 8) < 16"
      by (simp_all add: bias32 bias8 luma_ok_def)
    define c1 where "c1 = 0x80 OR (vg + 32)"
    define c2 where "c2 = push_bit 4 (vr - vg + 8) OR (vb - vg + 8)"
    from luma_tag_bits [OF b(1)] have c1: "c1 AND 0xC0 = 0x80" "c1 AND 0x3F = vg + 32"
      unfolding c1_def by blast+
    from nibble_hi [OF b(2) b(3)] nibble_lo [OF b(2) b(3)]
    have c2: "drop_bit 4 c2 AND 0x0F = vr - vg + 8" "c2 AND 0x0F = vb - vg + 8"
      unfolding c2_def by blast+
    have "encode_delta px prev = [c1, c2]"
      unfolding px prev ed using luma by (simp add: c1_def c2_def qoi_LUMA_def)
    with luma(1) show ?thesis
      by (simp add: px prev dispatch_LUMA [OF c1(1)] c1 c2 vr_def vg_def vb_def)
  next
    case rgb
    then show ?thesis unfolding px prev ed by (simp add: dispatch_RGB)
  qed
qed

section \<open>The header\<close>

lemma ReadFull_cases:
  "ReadFull n bs =
     (if n \<le> length bs then (Inr (take n bs), drop n bs) else (Inl (eof_kind bs), []))"
  by (simp add: ReadFull_def eof_kind_def)

lemma chan_range: "((x::byte) < 3 \<or> x > 4) = (x \<noteq> 3 \<and> x \<noteq> 4)"
  by (auto simp: word_less_nat_alt word_unat_eq_iff)

lemma DecodeHeader_cases:
  "DecodeHeader r =
     (if length r < 4 then (Inl (CouldNotReadMagic (eof_kind r)), [])
      else if length r < 8 then (Inl (CouldNotReadWidth (eof_kind (drop 4 r))), [])
      else if length r < 12 then (Inl (CouldNotReadHeight (eof_kind (drop 8 r))), [])
      else if length r < 13 then (Inl (CouldNotReadChannels EOF), [])
      else if length r < 14 then (Inl (CouldNotReadColorspace EOF), [])
      else if take 4 r \<noteq> qoiMagic then (Inl BadMagic, drop 14 r)
      else if r ! 12 \<noteq> 3 \<and> r ! 12 \<noteq> 4 then (Inl (InvalidChannels (r ! 12)), drop 14 r)
      else if r ! 13 \<noteq> 0 \<and> r ! 13 \<noteq> 1 then (Inl (InvalidColorspace (r ! 13)), drop 14 r)
      else (Inr \<lparr>magic = take 4 r, width = be_u32 (take 4 (drop 4 r)),
                 height = be_u32 (take 4 (drop 8 r)), channels = r ! 12,
                 colorspace = r ! 13\<rparr>, drop 14 r))"
proof -
  consider "length r < 4" | "4 \<le> length r" "length r < 8" | "8 \<le> length r" "length r < 12"
    | "length r = 12" | "length r = 13" | "14 \<le> length r"
    by linarith
  then show ?thesis
  proof cases
    case 1 then show ?thesis by (simp add: DecodeHeader_def ReadFull_cases)
  next
    case 2 then show ?thesis by (auto simp add: DecodeHeader_def ReadFull_cases)
  next
    case 3 then show ?thesis by (auto simp add: DecodeHeader_def ReadFull_cases)
  next
    case 4 then show ?thesis by (simp add: DecodeHeader_def ReadFull_cases eof_kind_def)
  next
    case 5 then show ?thesis by (simp add: DecodeHeader_def ReadFull_cases eof_kind_def)
  next
    case 6
    then have r1: "ReadFull 4 r = (Inr (take 4 r), drop 4 r)"
      and r2: "ReadFull 4 (drop 4 r) = (Inr (take 4 (drop 4 r)), drop 8 r)"
      and r3: "ReadFull 4 (drop 8 r) = (Inr (take 4 (drop 8 r)), drop 12 r)"
      and r4: "ReadFull 1 (drop 12 r) = (Inr (take 1 (drop 12 r)), drop 13 r)"
      and r5: "ReadFull 1 (drop 13 r) = (Inr (take 1 (drop 13 r)), drop 14 r)"
      by (simp_all add: ReadFull_def)
    from 6 have h: "hd (take 1 (drop 12 r)) = r ! 12" "hd (take 1 (drop 13 r)) = r ! 13"
      by (simp_all add: hd_drop_conv_nth)
    from 6 have l: "\<not> length r < 4" "\<not> length r < 8" "\<not> length r < 12"
      "\<not> length r < 13" "\<not> length r < 14"
      by simp_all
    show ?thesis
      unfolding DecodeHeader_def r1 r2 r3 r4 r5 prod.case sum.case h chan_range
      by (simp only: l if_False)
  qed
qed

text \<open>
  C4. \<open>DecodeHeader\<close> reads the 14 bytes of the header in the order magic (4), width (4,
  big-endian), height (4, big-endian), channels (1), colorspace (1). It fails exactly in
  these cases, each with an error of its own: the stream ends inside the magic, the
  width, the height, before the channels byte or before the colorspace byte; the magic
  is not \<open>qoif\<close>; the channels byte is neither 3 nor 4; the colorspace byte is neither 0
  nor 1. A truncated stream is reported before any of the three checks. Every stream of
  at least 14 bytes that passes the three checks is accepted whatever its width and
  height, and exactly 14 bytes are consumed.
\<close>

theorem DecodeHeader_spec:
  "DecodeHeader r =
     (if length r < 4 then (Inl (CouldNotReadMagic (eof_kind r)), [])
      else if length r < 8 then (Inl (CouldNotReadWidth (eof_kind (drop 4 r))), [])
      else if length r < 12 then (Inl (CouldNotReadHeight (eof_kind (drop 8 r))), [])
      else if length r < 13 then (Inl (CouldNotReadChannels EOF), [])
      else if length r < 14 then (Inl (CouldNotReadColorspace EOF), [])
      else if take 4 r \<noteq> qoiMagic then (Inl BadMagic, drop 14 r)
      else if r ! 12 \<noteq> 3 \<and> r ! 12 \<noteq> 4 then (Inl (InvalidChannels (r ! 12)), drop 14 r)
      else if r ! 13 \<noteq> 0 \<and> r ! 13 \<noteq> 1 then (Inl (InvalidColorspace (r ! 13)), drop 14 r)
      else (Inr \<lparr>magic = take 4 r, width = be_u32 (take 4 (drop 4 r)),
                 height = be_u32 (take 4 (drop 8 r)), channels = r ! 12,
                 colorspace = r ! 13\<rparr>, drop 14 r))
   \<and> distinct [CouldNotReadMagic e1, CouldNotReadWidth e2, CouldNotReadHeight e3,
                CouldNotReadChannels e4, CouldNotReadColorspace e5, BadMagic,
                InvalidChannels c, InvalidColorspace cs]"
  by (simp only: DecodeHeader_cases) simp

theorem DecodeHeader_spec_witness:
  "DecodeHeader [0x71, 0x6F, 0x69, 0x66, 0, 0, 1, 2, 0, 0, 0, 0, 4, 1, 7] =
     (Inr \<lparr>magic = qoiMagic, width = 258, height = 0, channels = 4, colorspace = 1\<rparr>, [7])
   \<and> DecodeHeader [0x71, 0x6F, 0x69, 0x66, 0, 0, 1, 2, 0, 0, 0, 0, 4] =
     (Inl (CouldNotReadColorspace EOF), [])
   \<and> DecodeHeader [0x71, 0x6F, 0x69, 0x66, 0, 0, 1, 2, 0, 0] =
     (Inl (CouldNotReadHeight ErrUnexpectedEOF), [])"
  using DecodeHeader_spec [of "[0x71, 0x6F, 0x69, 0x66, 0, 0, 1, 2, 0, 0, 0, 0, 4, 1, 7]"]
    DecodeHeader_spec [of "[0x71, 0x6F, 0x69, 0x66, 0, 0, 1, 2, 0, 0, 0, 0, 4]"]
    DecodeHeader_spec [of "[0x71, 0x6F, 0x69, 0x66, 0, 0, 1, 2, 0, 0]"]
  by (simp add: qoiMagic_def be_u32_def eof_kind_def)

section \<open>The LUMA chunk\<close>

lemma uint_byte_of_int: "uint (word_of_int k :: byte) = k mod 256"
  by (simp add: uint_word_of_int take_bit_eq_mod)

lemma uint_luma_green: "uint (g + ((x::byte) - 32)) = (uint g + (uint x - 32)) mod 256"
proof -
  have "g + (x - 32) = word_of_int (uint g + (uint x - 32))" by simp
  then show ?thesis by (simp only: uint_byte_of_int)
qed

lemma uint_luma_side:
  "uint (r + ((x::byte) - 32 - 8 + y)) = (uint r + (uint x - 32) - 8 + uint y) mod 256"
proof -
  have "r + (x - 32 - 8 + y) = word_of_int (uint r + (uint x - 32) - 8 + uint y)" by simp
  then show ?thesis by (simp only: uint_byte_of_int)
qed

lemma div16_small:
  assumes "0 \<le> (x::int)" "x < 256" shows "x div 16 mod 16 = x div 16"
proof -
  from assms have "x div 16 \<le> 255 div 16" by (intro zdiv_mono1) simp_all
  moreover from assms have "0 \<le> x div 16" by (simp add: pos_imp_zdiv_nonneg_iff)
  ultimately show ?thesis by simp
qed

lemma uint_drop4: "uint (drop_bit 4 (b2::byte)) = uint b2 div 16"
  by (simp add: unsigned_drop_bit_eq drop_bit_eq_div take_bit_eq_mod uint_div)

lemma uint_and15: "uint ((b2::byte) AND 0x0F) = uint b2 mod 16"
proof -
  have m: "(15 :: byte) = mask 4" by (simp add: mask_eq_exp_minus_1)
  show ?thesis unfolding m
    by (simp add: unsigned_take_bit_eq take_bit_eq_mod uint_mod flip: take_bit_eq_mask)
qed

lemma uint_and63: "uint ((b2::byte) AND 0x3F) = uint b2 mod 64"
proof -
  have m: "(63 :: byte) = mask 6" by (simp add: mask_eq_exp_minus_1)
  show ?thesis unfolding m
    by (simp add: unsigned_take_bit_eq take_bit_eq_mod uint_mod flip: take_bit_eq_mask)
qed

lemma drop_bit_4_nibble: "drop_bit 4 (b2::byte) AND 0x0F = drop_bit 4 b2"
proof -
  have "0 \<le> uint b2" "uint b2 < 256"
    using uint_lt2p [of b2] by simp_all
  then have "uint b2 div 16 mod 16 = uint b2 div 16"
    by (rule div16_small)
  then have "uint (drop_bit 4 b2 AND 0x0F) = uint (drop_bit 4 b2)"
    by (simp only: uint_and15 uint_drop4)
  then show ?thesis by (simp only: word_uint_eq_iff)
qed

lemma encode_delta_luma:
  assumes "encode_delta (r, g, b, a) (pr, pg, pb, pa) = [c1, c2]"
  shows "c1 = qoi_LUMA OR (g - pg + 32)"
    and "c2 = push_bit 4 (r - pr - (g - pg) + 8) OR (b - pb - (g - pg) + 8)"
    and "c1 AND qoi_MASK_2 = qoi_LUMA"
proof -
  from assms have l: "luma_ok (g - pg) (r - pr - (g - pg)) (b - pb - (g - pg))"
    and c: "c1 = qoi_LUMA OR (g - pg + 32)"
      "c2 = push_bit 4 (r - pr - (g - pg) + 8) OR (b - pb - (g - pg) + 8)"
    by (auto simp: encode_delta_cases split: if_splits)
  from l have "unat (g - pg + 32) < 64" by (simp add: luma_ok_def bias32)
  from luma_tag_bits [OF this] c show "c1 AND qoi_MASK_2 = qoi_LUMA"
    by (simp add: qoi_LUMA_def qoi_MASK_2_def)
  from c show "c1 = qoi_LUMA OR (g - pg + 32)"
    "c2 = push_bit 4 (r - pr - (g - pg) + 8) OR (b - pb - (g - pg) + 8)" by simp_all
qed

text \<open>
  C6. For a LUMA chunk (a tag byte \<open>b1\<close> whose top two bits are \<open>10\<close>, then a byte
  \<open>b2\<close>) the decoder takes \<open>dg\<close> = (low six bits of \<open>b1\<close>) - 32 and adds
  \<open>dg - 8 + (b2 >> 4)\<close> to red, \<open>dg\<close> to green and \<open>dg - 8 + (b2 & 0x0F)\<close> to blue, each
  modulo 256, and leaves alpha as it is. Whenever the encoder writes a two-byte chunk
  for a pixel after a previous one, the chunk is \<open>qoi_LUMA | (vg + 32)\<close> followed by
  \<open>(vg_r + 8) << 4 | (vg_b + 8)\<close>, it carries the LUMA tag, and the decoder turns the
  previous pixel back into the pixel.
\<close>

theorem luma_chunk:
  assumes "b1 AND qoi_MASK_2 = qoi_LUMA"
  shows "(let dg = (b1 AND 0x3F) - 32;
              r' = r + (dg - 8 + drop_bit 4 b2);
              g' = g + dg;
              b' = b + (dg - 8 + (b2 AND 0x0F))
          in dispatch b1 (b2 # rest) (r, g, b, a) index run = Inr (rest, (r', g', b', a), run)
             \<and> uint r' = (uint r + (uint b1 mod 64 - 32) - 8 + uint b2 div 16) mod 256
             \<and> uint g' = (uint g + (uint b1 mod 64 - 32)) mod 256
             \<and> uint b' = (uint b + (uint b1 mod 64 - 32) - 8 + uint b2 mod 16) mod 256)
         \<and> (\<forall>pr pg pb pa c1 c2.
              encode_delta (r, g, b, a) (pr, pg, pb, pa) = [c1, c2] \<longrightarrow>
                c1 = qoi_LUMA OR (g - pg + 32)
                \<and> c2 = push_bit 4 (r - pr - (g - pg) + 8) OR (b - pb - (g - pg) + 8)
                \<and> c1 AND qoi_MASK_2 = qoi_LUMA
                \<and> dispatch c1 (c2 # rest) (pr, pg, pb, pa) index run
                    = Inr (rest, (r, g, b, a), run))"
proof -
  from assms have t: "b1 AND 0xC0 = 0x80"
    by (simp add: qoi_MASK_2_def qoi_LUMA_def)
  have d: "dispatch b1 (b2 # rest) (r, g, b, a) index run =
       Inr (rest, (r + ((b1 AND 0x3F) - 32 - 8 + drop_bit 4 b2),
                   g + ((b1 AND 0x3F) - 32),
                   b + ((b1 AND 0x3F) - 32 - 8 + (b2 AND 0x0F)), a), run)"
    by (simp only: dispatch_LUMA [OF t] drop_bit_4_nibble)
  have u: "uint (r + ((b1 AND 0x3F) - 32 - 8 + drop_bit 4 b2))
             = (uint r + (uint b1 mod 64 - 32) - 8 + uint b2 div 16) mod 256"
    "uint (g + ((b1 AND 0x3F) - 32)) = (uint g + (uint b1 mod 64 - 32)) mod 256"
    "uint (b + ((b1 AND 0x3F) - 32 - 8 + (b2 AND 0x0F)))
             = (uint b + (uint b1 mod 64 - 32) - 8 + uint b2 mod 16) mod 256"
    by (simp_all only: uint_luma_side uint_luma_green uint_and63 uint_and15 uint_drop4)
  have inv: "dispatch c1 (c2 # rest) (pr, pg, pb, pa) index run = Inr (rest, (r, g, b, a), run)"
    if "encode_delta (r, g, b, a) (pr, pg, pb, pa) = [c1, c2]" for pr pg pb pa c1 c2
    using dispatch_encode_delta [of "(r, g, b, a)" "(pr, pg, pb, pa)" rest index run] that
    by simp
  show ?thesis
    unfolding Let_def
    by (intro conjI allI impI)
       (rule d u | erule encode_delta_luma | erule inv)+
qed

theorem luma_chunk_witness:
  "0xB4 AND qoi_MASK_2 = qoi_LUMA
   \<and> dispatch 0xB4 [0x6A, 9] (250, 250, 250, 7) index0 0 = Inr ([9], (12, 14, 16, 7), 0)
   \<and> encode_delta (12, 14, 16, 7) (250, 250, 250, 7) = [0xB4, 0x6A]"
proof -
  have h: "0xB4 AND qoi_MASK_2 = qoi_LUMA"
    by (simp add: qoi_MASK_2_def qoi_LUMA_def)
  have e: "encode_delta (12, 14, 16, 7) (250, 250, 250, 7) = [0xB4, 0x6A]"
    by code_simp
  from luma_chunk [OF h, of 250 "0x6A" 250 250 "[9]" 7 index0 0] h e
  show ?thesis by (simp add: Let_def)
qed

section \<open>Images without pixels\<close>

lemma DecodeHeader_Inr:
  assumes "DecodeHeader r = (Inr header, r')"
  shows "r' = drop 14 r" and "14 \<le> length r"
    and "channels header = 3 \<or> channels header = 4"
    and "width header = be_u32 (take 4 (drop 4 r))"
    and "height header = be_u32 (take 4 (drop 8 r))"
    and "channels header = r ! 12"
  using assms by (auto simp add: DecodeHeader_cases split: if_splits)

text \<open>
  C10. When the header decodes and the 32-bit product of its width and height is 0,
  \<open>Decode\<close> returns at once: no error, 0 bytes written, width 0, height 0,
  \<open>includesAlpha\<close> false; and \<open>DecodeIntoBuffer\<close> returns no image and no error. Both
  leave the reader right after the 14 bytes of the header and the destination as it
  was, whatever its length (there is no capacity check).
\<close>

theorem zero_pixels:
  assumes "DecodeHeader r = (Inr header, r')" and "width header * height header = 0"
  shows "Decode r dest =
           \<lparr>bytesWritten = 0, res_width = 0, res_height = 0, includesAlpha = False,
            err = None, dest_after = dest, reader_after = drop 14 r\<rparr>
         \<and> DecodeIntoBuffer r dest =
           \<lparr>img = None, into_err = None, into_dest = dest, into_reader = drop 14 r\<rparr>
         \<and> 14 \<le> length r"
  using assms DecodeHeader_Inr(1,2) [OF assms(1)]
  by (simp add: Decode_def DecodeIntoBuffer_def)

theorem zero_pixels_witness:
  "DecodeHeader [0x71, 0x6F, 0x69, 0x66, 0, 0, 0, 0, 0, 0, 0, 5, 4, 0, 0xFE, 1]
     = (Inr \<lparr>magic = qoiMagic, width = 0, height = 5, channels = 4, colorspace = 0\<rparr>,
        [0xFE, 1])
   \<and> Decode [0x71, 0x6F, 0x69, 0x66, 0, 0, 0, 0, 0, 0, 0, 5, 4, 0, 0xFE, 1] [] =
           \<lparr>bytesWritten = 0, res_width = 0, res_height = 0, includesAlpha = False,
            err = None, dest_after = [], reader_after = [0xFE, 1]\<rparr>
   \<and> DecodeIntoBuffer [0x71, 0x6F, 0x69, 0x66, 0, 0, 0, 0, 0, 0, 0, 5, 4, 0, 0xFE, 1] [] =
           \<lparr>img = None, into_err = None, into_dest = [], into_reader = [0xFE, 1]\<rparr>"
proof -
  have h: "DecodeHeader [0x71, 0x6F, 0x69, 0x66, 0, 0, 0, 0, 0, 0, 0, 5, 4, 0, 0xFE, 1]
     = (Inr \<lparr>magic = qoiMagic, width = 0, height = 5, channels = 4, colorspace = 0\<rparr>,
        [0xFE, 1])"
    by (simp add: DecodeHeader_cases qoiMagic_def be_u32_def)
  from zero_pixels [OF h, of "[]"] h show ?thesis by simp
qed

section \<open>The one-pixel example\<close>

text \<open>
  C9. The 1x1 image of the opaque black pixel (0,0,0,255) encodes to the 23 bytes
  \<open>71 6F 69 66 00 00 00 01 00 00 00 01 03 00\<close>, \<open>C0\<close>,
  \<open>00 00 00 00 00 00 00 01\<close>: by \<open>Encode\<close> of an image holding that pixel, and by
  \<open>Encode\<close> of the three-byte buffer \<open>00 00 00\<close> (alpha implicit). Decoding the 23
  bytes gives back one pixel with the bytes \<open>00 00 00\<close>, three channels, width and
  height 1, which reads as (0,0,0,255).
\<close>

theorem one_black_pixel:
  "Encode [0, 0, 0] 1 1 =
     Inr [0x71, 0x6F, 0x69, 0x66, 0, 0, 0, 1, 0, 0, 0, 1, 3, 0, 0xC0, 0, 0, 0, 0, 0, 0, 0, 1]
   \<and> Encode_image (image_of \<lparr>Pix = [0, 0, 0, 255], Width = 1, Height = 1, Channels = 4,
                              Colorspace = 0\<rparr>) =
     Inr [0x71, 0x6F, 0x69, 0x66, 0, 0, 0, 1, 0, 0, 0, 1, 3, 0, 0xC0, 0, 0, 0, 0, 0, 0, 0, 1]
   \<and> Decode [0x71, 0x6F, 0x69, 0x66, 0, 0, 0, 1, 0, 0, 0, 1, 3, 0, 0xC0,
              0, 0, 0, 0, 0, 0, 0, 1] [9, 9, 9] =
       \<lparr>bytesWritten = 3, res_width = 1, res_height = 1, includesAlpha = False,
        err = None, dest_after = [0, 0, 0], reader_after = qoiEnd\<rparr>
   \<and> Decode_alloc [0x71, 0x6F, 0x69, 0x66, 0, 0, 0, 1, 0, 0, 0, 1, 3, 0, 0xC0,
                    0, 0, 0, 0, 0, 0, 0, 1] =
       (Some \<lparr>Pix = [0, 0, 0], Width = 1, Height = 1, Channels = 3, Colorspace = 0\<rparr>,
        None, qoiEnd)
   \<and> Image_At \<lparr>Pix = [0, 0, 0], Width = 1, Height = 1, Channels = 3, Colorspace = 0\<rparr> 0 0
       = Some (0, 0, 0, 255)"
  by (intro conjI; code_simp)

theorem one_black_pixel_witness:
  "(case Encode [0, 0, 0] 1 1 of
      Inl e \<Rightarrow> False
    | Inr s \<Rightarrow> length s = 23 \<and> dest_after (Decode s [9, 9, 9]) = [0, 0, 0])"
  using one_black_pixel by simp

section \<open>The decode loop, chunk by chunk\<close>

declare decode_loop.simps [simp del]

lemma decode_loop_done:
  "\<not> d_numDecodedPixels st < N \<Longrightarrow> decode_loop N bpp st = (None, st)"
  by (simp add: decode_loop.simps)

lemma decode_loop_step:
  "d_numDecodedPixels st < N \<Longrightarrow> decode_iter N bpp st = Inr st' \<Longrightarrow>
     decode_loop N bpp st = decode_loop N bpp st'"
  by (simp add: decode_loop.simps)

lemma decode_loop_fail:
  "d_numDecodedPixels st < N \<Longrightarrow> decode_iter N bpp st = Inl e \<Longrightarrow>
     decode_loop N bpp st = (Some e, st)"
  by (simp add: decode_loop.simps)

lemma decode_iter_run:
  "0 < k \<Longrightarrow> bpp \<le> length dst \<Longrightarrow>
     decode_iter N bpp (DState b px idx k nd dn dst) =
       Inr (DState b px idx (k - 1) (nd + 1) (dn @ take bpp (px_bytes px)) (drop bpp dst))"
  by (simp add: decode_iter_def emit_px_def)

lemma decode_iter_chunk:
  "read_chunk b px idx 0 = Inr (b', px', idx', k') \<Longrightarrow> bpp \<le> length dst \<Longrightarrow>
     decode_iter N bpp (DState b px idx 0 nd dn dst) =
       Inr (DState b' px' idx' k' (nd + 1) (dn @ take bpp (px_bytes px')) (drop bpp dst))"
  by (simp add: decode_iter_def emit_px_def)

lemma read_chunk_run:
  assumes "v < 62"
  shows "read_chunk ((qoi_RUN OR of_nat v) # bs) px idx k =
           Inr (bs, px, idx[index_pos_of px := px], v)"
proof -
  note t = run_tag_bits [OF assms]
  from t have "dispatch (0xC0 OR of_nat v) bs px idx k = Inr (bs, px, v)"
    by (simp add: dispatch_RUN)
  then show ?thesis by (simp add: read_chunk_def qoi_RUN_def)
qed

lemma read_chunk_index:
  "read_chunk ((qoi_INDEX OR (p AND 0x3F)) # bs) px idx k =
     Inr (bs, idx ! unat (p AND 0x3F),
          idx[index_pos_of (idx ! unat (p AND 0x3F)) := idx ! unat (p AND 0x3F)], k)"
proof -
  from index_tag_bits [of p]
  have "dispatch (p AND 0x3F) bs px idx k = Inr (bs, idx ! unat (p AND 0x3F), k)"
    by (simp add: dispatch_INDEX)
  then show ?thesis by (simp add: read_chunk_def qoi_INDEX_def)
qed

lemma encode_delta_nonempty: "encode_delta px prev \<noteq> []"
  by (cases px, cases prev) (simp add: encode_delta_cases)

lemma read_chunk_delta:
  "read_chunk (encode_delta px prev @ bs) prev idx k = Inr (bs, px, idx[index_pos_of px := px], k)"
proof -
  obtain c cs where e: "encode_delta px prev = c # cs"
    using encode_delta_nonempty [of px prev] by (cases "encode_delta px prev") auto
  from dispatch_encode_delta [of px prev bs idx k] e
  show ?thesis by (simp add: read_chunk_def)
qed

text \<open>The countdown of a pending run.\<close>

lemma decode_loop_run:
  "nd + k \<le> N \<Longrightarrow> bpp * k \<le> length dst \<Longrightarrow>
     decode_loop N bpp (DState b px idx k nd dn dst) =
     decode_loop N bpp (DState b px idx 0 (nd + k)
        (dn @ concat (replicate k (take bpp (px_bytes px)))) (drop (bpp * k) dst))"
proof (induction k arbitrary: nd dn dst)
  case 0
  then show ?case by simp
next
  case (Suc k)
  from Suc.prems have l: "bpp \<le> length dst" "nd < N"
    by (auto intro: order_trans [of _ "bpp * Suc k"])
  have "decode_loop N bpp (DState b px idx (Suc k) nd dn dst) =
        decode_loop N bpp (DState b px idx k (nd + 1) (dn @ take bpp (px_bytes px)) (drop bpp dst))"
    using l by (subst decode_loop_step [OF _ decode_iter_run]) simp_all
  also have "\<dots> = decode_loop N bpp (DState b px idx 0 (nd + 1 + k)
        ((dn @ take bpp (px_bytes px)) @ concat (replicate k (take bpp (px_bytes px))))
        (drop (bpp * k) (drop bpp dst)))"
    using Suc.prems by (intro Suc.IH) simp_all
  finally show ?case by (simp add: add.commute)
qed

section \<open>The encode loop, pixel by pixel\<close>

lemma index_pos_lt: "index_pos_of p < 64"
  using index_tag_bits by (cases p) (simp add: index_pos_of_def)

lemma encode_pixel_same_flush:
  "r + 1 = 62 \<or> l \<Longrightarrow>
     encode_pixel prev l (EState idx prev r out) = EState idx prev 0 (out @ [qoi_RUN OR of_nat r])"
  by (auto simp: encode_pixel_def Let_def)

lemma encode_pixel_same_keep:
  "r + 1 \<noteq> 62 \<Longrightarrow> \<not> l \<Longrightarrow>
     encode_pixel prev l (EState idx prev r out) = EState idx prev (r + 1) out"
  by (auto simp: encode_pixel_def Let_def)

lemma encode_pixel_hit:
  "p \<noteq> prev \<Longrightarrow> idx ! index_pos_of p = p \<Longrightarrow>
     encode_pixel p l (EState idx prev r out) =
       EState idx p 0 (out @ run_flush r @
         [qoi_INDEX OR ((case p of (r, g, b, a) \<Rightarrow> qoi_COLOR_HASH r g b a) AND 0x3F)])"
  by (cases p) (auto simp: encode_pixel_def Let_def run_flush_def index_pos_of_def)

lemma encode_pixel_miss:
  "p \<noteq> prev \<Longrightarrow> idx ! index_pos_of p \<noteq> p \<Longrightarrow>
     encode_pixel p l (EState idx prev r out) =
       EState (idx[index_pos_of p := p]) p 0 (out @ run_flush r @ encode_delta p prev)"
  by (cases p) (auto simp: encode_pixel_def Let_def run_flush_def index_pos_of_def)

lemma encode_pixel_out:
  "encode_pixel p l (EState idx prev r out) =
     (case encode_pixel p l (EState idx prev r []) of
        EState idx' prev' r' new \<Rightarrow> EState idx' prev' r' (out @ new))"
  by (cases p) (auto simp: encode_pixel_def Let_def)

lemma encode_pixels_out:
  "e_out (encode_pixels ps (EState idx prev r out)) =
     out @ e_out (encode_pixels ps (EState idx prev r []))"
proof (induction ps arbitrary: idx prev r out)
  case Nil
  then show ?case by simp
next
  case (Cons p ps)
  obtain idx' prev' r' new where
    e: "encode_pixel p (ps = []) (EState idx prev r []) = EState idx' prev' r' new"
    by (cases "encode_pixel p (ps = []) (EState idx prev r [])") auto
  then have e': "encode_pixel p (ps = []) (EState idx prev r out) = EState idx' prev' r' (out @ new)"
    by (subst encode_pixel_out) simp
  show ?case
    by (simp add: e e' Cons.IH [of idx' prev' r' "out @ new"] Cons.IH [of idx' prev' r' new])
qed

section \<open>Decoding what was encoded\<close>

lemma out_bytes_simps [simp]:
  "out_bytes bpp [] = []"
  "out_bytes bpp (p # ps) = take bpp (px_bytes p) @ out_bytes bpp ps"
  "out_bytes bpp (ps @ qs) = out_bytes bpp ps @ out_bytes bpp qs"
  by (simp_all add: out_bytes_def)

lemma out_bytes_replicate:
  "out_bytes bpp (replicate k p) = concat (replicate k (take bpp (px_bytes p)))"
  by (simp add: out_bytes_def)

lemma decode_loop_chunk:
  assumes "read_chunk b px idx 0 = Inr (b', px', idx', k)" "nd < N" "bpp \<le> length dst"
  shows "decode_loop N bpp (DState b px idx 0 nd dn dst) =
         decode_loop N bpp (DState b' px' idx' k (nd + 1) (dn @ take bpp (px_bytes px'))
           (drop bpp dst))"
  using assms by (subst decode_loop_step [OF _ decode_iter_chunk]) simp_all

lemma decode_loop_RUN:
  assumes "v < 62" "nd + Suc v \<le> N" "bpp * Suc v \<le> length dst"
  shows "decode_loop N bpp (DState ((qoi_RUN OR of_nat v) # bs) px idx 0 nd dn dst) =
         decode_loop N bpp (DState bs px (idx[index_pos_of px := px]) 0 (nd + Suc v)
           (dn @ out_bytes bpp (replicate (Suc v) px)) (drop (bpp * Suc v) dst))"
proof -
  from assms have l: "nd < N" "bpp \<le> length dst" "nd + 1 + v \<le> N"
    "bpp * v \<le> length (drop bpp dst)"
    by (auto intro: order_trans [of _ "bpp * Suc v"])
  show ?thesis
    by (subst decode_loop_chunk [OF read_chunk_run [OF assms(1)] l(1,2)],
        subst decode_loop_run [OF l(3,4)])
       (simp add: out_bytes_replicate add.commute)
qed

lemma cache_ok_run:
  assumes "cache_ok idx prev r didx" "r' < 62"
  shows "cache_ok idx prev r' (didx[index_pos_of prev := prev])"
  using assms index_pos_lt [of prev]
  by (auto simp: cache_ok_def nth_list_update)

lemma cache_ok_hit:
  assumes "cache_ok idx prev r didx" "idx ! index_pos_of p = p"
  shows "didx ! index_pos_of p = p" and "cache_ok idx p 0 (didx[index_pos_of p := p])"
  using assms index_pos_lt [of p]
  by (auto simp: cache_ok_def nth_list_update)

lemma cache_ok_miss:
  assumes "cache_ok idx prev r didx"
  shows "cache_ok (idx[index_pos_of p := p]) p 0 (didx[index_pos_of p := p])"
  using assms index_pos_lt [of p]
  by (auto simp: cache_ok_def nth_list_update)

lemma cache_ok_r: "cache_ok idx prev r didx \<Longrightarrow> r' < 62 \<Longrightarrow> cache_ok idx prev r' didx"
  by (simp add: cache_ok_def)

lemma cache_ok_lt: "cache_ok idx prev r didx \<Longrightarrow> r < 62"
  by (simp add: cache_ok_def)

lemma drop_mult_Suc: "drop (bpp * k) (drop bpp dst) = drop (bpp * Suc k) dst"
  by (simp add: add.commute)

lemma roundtrip_loop:
  assumes "cache_ok idx prev r didx" "ps \<noteq> [] \<or> r = 0" "nd + r + length ps = N"
    "bpp * (r + length ps) \<le> length dst"
  shows "\<exists>didx'. decode_loop N bpp
            (DState (e_out (encode_pixels ps (EState idx prev r [])) @ rest) prev didx 0 nd dn dst)
          = (None, DState rest (last (prev # ps)) didx' 0 N
                     (dn @ out_bytes bpp (replicate r prev @ ps))
                     (drop (bpp * (r + length ps)) dst))"
  using assms
proof (induction ps arbitrary: idx prev r didx nd dn dst)
  case Nil
  then show ?case by (simp add: decode_loop_done)
next
  case (Cons p ps)
  note ok = Cons.prems(1)
  from ok have r: "r < 62" by (rule cache_ok_lt)
  show ?case
  proof (cases "p = prev")
    case same: True
    show ?thesis
    proof (cases "r + 1 = 62 \<or> ps = []")
      case flush: True
      have enc: "e_out (encode_pixels (p # ps) (EState idx prev r [])) =
                   (qoi_RUN OR of_nat r) # e_out (encode_pixels ps (EState idx prev 0 []))"
        using same flush
        by (simp add: encode_pixel_same_flush
              encode_pixels_out [of ps idx prev 0 "[qoi_RUN OR of_nat r]"])
      from Cons.prems have b: "nd + Suc r \<le> N" "bpp * Suc r \<le> length dst"
        by (auto intro: order_trans [of _ "bpp * (r + length (p # ps))"])
      have ok': "cache_ok idx prev 0 (didx[index_pos_of prev := prev])"
        using ok by (rule cache_ok_run) simp
      from Cons.prems have c: "nd + Suc r + 0 + length ps = N"
        "bpp * (0 + length ps) \<le> length (drop (bpp * Suc r) dst)"
        by (simp_all add: algebra_simps)
      from Cons.IH [OF ok' _ c, of "dn @ out_bytes bpp (replicate (Suc r) prev)"]
      obtain didx' where
        "decode_loop N bpp
           (DState (e_out (encode_pixels ps (EState idx prev 0 [])) @ rest) prev
              (didx[index_pos_of prev := prev]) 0 (nd + Suc r)
              (dn @ out_bytes bpp (replicate (Suc r) prev)) (drop (bpp * Suc r) dst))
         = (None, DState rest (last (prev # ps)) didx' 0 N
              ((dn @ out_bytes bpp (replicate (Suc r) prev)) @ out_bytes bpp (replicate 0 prev @ ps))
              (drop (bpp * (0 + length ps)) (drop (bpp * Suc r) dst)))"
        by auto
      then show ?thesis
        unfolding enc unfolding same
        by (simp add: decode_loop_RUN [OF r b] replicate_app_Cons_same algebra_simps)
    next
      case keep: False
      then have ne: "ps \<noteq> []" and r1: "r + 1 < 62" using r by auto
      have enc: "encode_pixel p (ps = []) (EState idx prev r []) = EState idx prev (r + 1) []"
        using same keep by (simp add: encode_pixel_same_keep)
      have ok': "cache_ok idx prev (r + 1) didx"
        using ok r1 by (rule cache_ok_r)
      from Cons.prems have c: "nd + (r + 1) + length ps = N"
        "bpp * ((r + 1) + length ps) \<le> length dst"
        by simp_all
      have enc': "e_out (encode_pixels (p # ps) (EState idx prev r [])) =
                    e_out (encode_pixels ps (EState idx prev (r + 1) []))"
        by (simp add: enc)
      from Cons.IH [OF ok' _ c, of dn] ne show ?thesis
        unfolding enc' unfolding same
        by (simp add: replicate_app_Cons_same)
    qed
  next
    case diff: False
    define X idx' where "X = (if idx ! index_pos_of p = p
        then [qoi_INDEX OR ((case p of (r, g, b, a) \<Rightarrow> qoi_COLOR_HASH r g b a) AND 0x3F)]
        else encode_delta p prev)"
      and "idx' = (if idx ! index_pos_of p = p then idx else idx[index_pos_of p := p])"
    have enc: "e_out (encode_pixels (p # ps) (EState idx prev r [])) =
                 run_flush r @ X @ e_out (encode_pixels ps (EState idx' p 0 []))"
      using diff
      by (simp add: X_def idx'_def encode_pixel_hit encode_pixel_miss
            encode_pixels_out [of ps _ p 0 "run_flush r @ _"])
    define didx1 where "didx1 = (if r > 0 then didx[index_pos_of prev := prev] else didx)"
    have ok1: "cache_ok idx prev 0 didx1"
      using ok cache_ok_run [OF ok, of 0] cache_ok_r [OF ok, of 0] by (simp add: didx1_def)
    from Cons.prems have b: "nd + r < N" "bpp * r + bpp \<le> length dst"
      by (simp_all add: algebra_simps)
    have run: "decode_loop N bpp (DState ((run_flush r @ X @ bs)) prev didx 0 nd dn dst) =
               decode_loop N bpp (DState (X @ bs) prev didx1 0 (nd + r)
                  (dn @ out_bytes bpp (replicate r prev)) (drop (bpp * r) dst))" for bs
    proof (cases "r > 0")
      case False
      then show ?thesis by (simp add: run_flush_def didx1_def)
    next
      case True
      then obtain v where v: "r = Suc v" by (cases r) auto
      with r b have "v < 62" "nd + Suc v \<le> N" "bpp * Suc v \<le> length dst" by simp_all
      from decode_loop_RUN [OF this] v show ?thesis
        by (simp add: run_flush_def didx1_def)
    qed
    define didx2 where "didx2 = didx1[index_pos_of p := p]"
    have rc: "read_chunk (X @ bs) prev didx1 0 = Inr (bs, p, didx2, 0)" for bs
    proof (cases "idx ! index_pos_of p = p")
      case True
      from cache_ok_hit(1) [OF ok1 True] have "didx1 ! index_pos_of p = p" .
      then show ?thesis
        using True read_chunk_index [of "case p of (r, g, b, a) \<Rightarrow> qoi_COLOR_HASH r g b a" bs prev didx1 0]
        by (cases p) (simp add: X_def didx2_def index_pos_of_def)
    next
      case False
      then show ?thesis by (simp add: X_def didx2_def read_chunk_delta)
    qed
    have ok2: "cache_ok idx' p 0 didx2"
      using cache_ok_hit(2) [OF ok1, of p] cache_ok_miss [OF ok1, of p]
      by (simp add: idx'_def didx2_def)
    from b have b': "nd + r < N" "bpp \<le> length (drop (bpp * r) dst)" by simp_all
    from Cons.prems have c: "nd + r + 1 + 0 + length ps = N"
      "bpp * (0 + length ps) \<le> length (drop bpp (drop (bpp * r) dst))"
      by (simp_all add: algebra_simps)
    from Cons.IH [OF ok2 _ c,
        of "(dn @ out_bytes bpp (replicate r prev)) @ take bpp (px_bytes p)"]
    obtain didx' where
      "decode_loop N bpp
         (DState (e_out (encode_pixels ps (EState idx' p 0 [])) @ rest) p didx2 0 (nd + r + 1)
            ((dn @ out_bytes bpp (replicate r prev)) @ take bpp (px_bytes p))
            (drop bpp (drop (bpp * r) dst)))
       = (None, DState rest (last (p # ps)) didx' 0 N
            (((dn @ out_bytes bpp (replicate r prev)) @ take bpp (px_bytes p))
               @ out_bytes bpp (replicate 0 p @ ps))
            (drop (bpp * (0 + length ps)) (drop bpp (drop (bpp * r) dst))))"
      by auto
    then show ?thesis
      unfolding enc
      by (simp add: run decode_loop_chunk [OF rc b'] algebra_simps)
  qed
qed

section \<open>From the buffer to the stream and back\<close>

lemma be_u32_put_u32: "be_u32 (put_u32 v) = v"
  unfolding be_u32_def put_u32_def
  apply simp
  apply (rule bit_word_eqI)
  apply (auto simp: bit_simps)
  subgoal for n by (cases "16 \<le> n") auto
  subgoal for n by (cases "24 \<le> n"; cases "16 \<le> n") auto
  done

lemma length_put_u32 [simp]: "length (put_u32 v) = 4"
  by (simp add: put_u32_def)

lemma encode_pixels_snoc:
  "encode_pixels (ps @ [p]) st = encode_pixel p True (fold (\<lambda>q. encode_pixel q False) ps st)"
  by (induction ps arbitrary: st) simp_all

lemma fold_rows_plain:
  "fold (\<lambda>y. fold (\<lambda>x. f (P y x)) xs) ys st = fold f (concat (map (\<lambda>y. map (P y) xs) ys)) st"
  by (induction ys arbitrary: st) (simp_all add: fold_map comp_def)

lemma encode_rows:
  assumes "0 < W" "0 < H"
  shows "fold (\<lambda>y. fold (\<lambda>x. encode_pixel (P y x) (Suc x = W \<and> Suc y = H)) [0..<W]) [0..<H] st
         = encode_pixels (concat (map (\<lambda>y. map (P y) [0..<W]) [0..<H])) st"
proof -
  obtain W' H' where W: "W = Suc W'" and H: "H = Suc H'"
    using assms by (cases W; cases H) auto
  define g where "g = (\<lambda>y x. encode_pixel (P y x) (Suc x = W \<and> Suc y = H))"
  define f where "f = (\<lambda>q. encode_pixel q False)"
  define front where "front = concat (map (\<lambda>y. map (P y) [0..<W]) [0..<H'])"
  have rows: "fold (\<lambda>y. fold (g y) [0..<W]) [0..<H'] st = fold f front st"
  proof -
    have "fold (\<lambda>y. fold (g y) [0..<W]) [0..<H'] st
            = fold (\<lambda>y. fold (\<lambda>x. f (P y x)) [0..<W]) [0..<H'] st"
      by (rule fold_cong, simp, simp, rule ext, rule fold_cong) (auto simp: H g_def f_def)
    then show ?thesis by (simp only: fold_rows_plain front_def)
  qed
  have lastrow: "fold (g H') [0..<W'] s = fold f (map (P H') [0..<W']) s" for s
  proof -
    have "fold (g H') [0..<W'] s = fold (\<lambda>x. f (P H' x)) [0..<W'] s"
      by (rule fold_cong) (auto simp: W g_def f_def)
    then show ?thesis by (simp add: fold_map comp_def)
  qed
  have lastpx: "g H' W' = encode_pixel (P H' W') True"
    by (simp add: g_def W H)
  have "fold (\<lambda>y. fold (g y) [0..<W]) [0..<H] st
          = fold (g H') [0..<W] (fold (\<lambda>y. fold (g y) [0..<W]) [0..<H'] st)"
    by (simp add: H)
  also have "\<dots> = fold (g H') [0..<W] (fold f front st)"
    by (simp only: rows)
  also have "\<dots> = g H' W' (fold (g H') [0..<W'] (fold f front st))"
    by (simp add: W)
  also have "\<dots> = encode_pixel (P H' W') True (fold f (front @ map (P H') [0..<W']) st)"
    by (simp only: lastrow lastpx fold_append comp_def)
  also have "\<dots> = encode_pixels ((front @ map (P H') [0..<W']) @ [P H' W']) st"
    by (simp only: encode_pixels_snoc f_def)
  also have "(front @ map (P H') [0..<W']) @ [P H' W']
               = concat (map (\<lambda>y. map (P y) [0..<W]) [0..<H])"
    by (simp add: front_def H W)
  finally show ?thesis by (simp only: g_def)
qed

lemma concat_chunks:
  "concat (map (\<lambda>k. take b (drop (k * b) xs)) [0..<n]) = take (n * b) xs"
proof (induction n)
  case 0
  then show ?case by simp
next
  case (Suc n)
  have "Suc n * b = n * b + b" by simp
  then have "take (Suc n * b) xs = take (n * b) xs @ take b (drop (n * b) xs)"
    by (simp only: take_add)
  with Suc show ?case by simp
qed

lemma take3_drop:
  "i + 3 \<le> length xs \<Longrightarrow> take 3 (drop i xs) = [xs ! i, xs ! (i + 1), xs ! (i + 2)]"
  by (simp add: numeral_3_eq_3 take_Suc_conv_app_nth)

lemma take4_drop:
  "i + 4 \<le> length xs \<Longrightarrow> take 4 (drop i xs) = [xs ! i, xs ! (i + 1), xs ! (i + 2), xs ! (i + 3)]"
  by (simp add: numeral_eq_Suc take_Suc_conv_app_nth)

lemma src_px_bytes:
  assumes "bpp = 3 \<or> bpp = 4" "(y * W + x) * unat bpp + unat bpp \<le> length src"
  shows "take (unat bpp) (px_bytes (src_px src (int W) bpp y x))
           = take (unat bpp) (drop ((y * W + x) * unat bpp) src)"
proof -
  have i: "nat ((int y * int W + int x) * uint bpp) = (y * W + x) * unat bpp"
  proof -
    have "(int y * int W + int x) * uint bpp = int ((y * W + x) * unat bpp)"
      by (simp only: uint_nat of_nat_mult of_nat_add)
    then show ?thesis by (simp only: nat_int)
  qed
  from assms show ?thesis
    unfolding src_px_def i Let_def
    by (auto simp: px_bytes_def take3_drop take4_drop)
qed

lemma length_pixels_of: "length (pixels_of src w bpp W H) = H * W"
  by (induction H) (simp_all add: pixels_of_def)

lemma pixel_bound:
  assumes "x < W" "y < H"
  shows "(y * W + x) * b + b \<le> H * W * (b::nat)"
proof -
  from assms have "Suc (y * W + x) \<le> Suc y * W" by simp
  also from assms have "Suc y * W \<le> H * W" by (intro mult_le_mono1) simp
  finally have "Suc (y * W + x) * b \<le> H * W * b" by (rule mult_le_mono1)
  then show ?thesis by (simp add: algebra_simps)
qed

lemma out_bytes_map: "out_bytes b (map P xs) = concat (map (\<lambda>x. take b (px_bytes (P x))) xs)"
  by (simp add: out_bytes_def comp_def)

lemma out_bytes_concat: "out_bytes b (concat xss) = concat (map (out_bytes b) xss)"
  by (induction xss) simp_all

lemma out_bytes_pixels:
  assumes "bpp = 3 \<or> bpp = 4" "length src = H * W * unat bpp"
  shows "out_bytes (unat bpp) (pixels_of src (int W) bpp W H) = src"
proof -
  define b where "b = unat bpp"
  have row: "out_bytes b (map (src_px src (int W) bpp y) [0..<W])
               = take (W * b) (drop (y * (W * b)) src)" if "y < H" for y
  proof -
    have "concat (map (\<lambda>x. take b (px_bytes (src_px src (int W) bpp y x))) [0..<W])
            = concat (map (\<lambda>x. take b (drop (x * b) (drop (y * (W * b)) src))) [0..<W])"
    proof (rule arg_cong [where f = concat], rule map_cong [OF refl])
      fix x assume "x \<in> set [0..<W]"
      then have "x < W" by simp
      from pixel_bound [OF this that, of b] assms(2)
      have "(y * W + x) * unat bpp + unat bpp \<le> length src" by (simp add: b_def)
      from src_px_bytes [OF assms(1) this]
      show "take b (px_bytes (src_px src (int W) bpp y x))
              = take b (drop (x * b) (drop (y * (W * b)) src))"
        by (simp add: b_def algebra_simps)
    qed
    then show ?thesis by (simp only: out_bytes_map concat_chunks)
  qed
  have "out_bytes b (pixels_of src (int W) bpp W H)
          = concat (map (\<lambda>y. out_bytes b (map (src_px src (int W) bpp y) [0..<W])) [0..<H])"
    by (simp add: pixels_of_def out_bytes_concat comp_def)
  also have "\<dots> = concat (map (\<lambda>y. take (W * b) (drop (y * (W * b)) src)) [0..<H])"
    by (rule arg_cong [where f = concat], rule map_cong [OF refl]) (simp add: row)
  also have "\<dots> = take (H * (W * b)) src"
    by (rule concat_chunks)
  also have "\<dots> = src"
    using assms(2) by (simp add: b_def)
  finally show ?thesis by (simp only: b_def)
qed

lemma DecodeHeader_encoded:
  assumes "c = 3 \<or> c = 4"
  shows "DecodeHeader (qoiMagic @ put_u32 wv @ put_u32 hv @ [c] @ [0] @ body) =
           (Inr \<lparr>magic = qoiMagic, width = wv, height = hv, channels = c, colorspace = 0\<rparr>, body)"
proof -
  obtain a0 a1 a2 a3 where w: "put_u32 wv = [a0, a1, a2, a3]"
    by (simp add: put_u32_def)
  obtain b0 b1 b2 b3 where h: "put_u32 hv = [b0, b1, b2, b3]"
    by (simp add: put_u32_def)
  have "be_u32 [a0, a1, a2, a3] = wv" "be_u32 [b0, b1, b2, b3] = hv"
    using be_u32_put_u32 [of wv] be_u32_put_u32 [of hv] by (simp_all only: w h)
  with assms show ?thesis
    unfolding w h by (auto simp add: DecodeHeader_cases qoiMagic_def)
qed

lemma go_div_exact: "0 < n \<Longrightarrow> 0 \<le> c \<Longrightarrow> go_div (n * c) n = c"
  by (simp add: go_div_def sgn_mult abs_mult zero_less_mult_iff) (cases "c = 0"; simp)

lemma qoiEnd_put: "put_u32 0 @ put_u32 1 = qoiEnd"
  by (simp add: put_u32_def qoiEnd_def)

lemma Encode_ok:
  assumes "1 \<le> w" "1 \<le> h" "c = 3 \<or> c = 4" "int (length src) = w * h * c"
    "w * h < qoiPixelsMax"
  shows "Encode src w h =
           Inr (qoiMagic @ put_u32 (word_of_int w) @ put_u32 (word_of_int h) @ [word_of_int c]
                @ [0] @ chunks_of src w h (word_of_int c) @ qoiEnd)"
proof -
  from assms have pos: "0 < w * h" by (simp add: zero_less_mult_iff)
  from assms have c0: "0 \<le> c" by auto
  have bpp: "go_div (int (length src)) (w * h) = c"
    using go_div_exact [OF pos c0] by (simp only: assms(4))
  have ub: "uint (word_of_int c :: byte) = c"
    using assms(3) by auto
  have nb: "(word_of_int c :: byte) = 3 \<or> (word_of_int c :: byte) = 4"
    using assms(3) by auto
  have flags: "(int x = w - 1 \<and> int y = h - 1) = (Suc x = nat w \<and> Suc y = nat h)" for x y
    using assms(1,2) by auto
  have W: "0 < nat w" "0 < nat h" using assms(1,2) by simp_all
  let ?hdr = "qoiMagic @ put_u32 (word_of_int w) @ put_u32 (word_of_int h) @ [word_of_int c] @ [0]"
  have loop: "fold (\<lambda>y. fold (\<lambda>x. encode_pixel (src_px src w (word_of_int c) y x)
                                        (int x = w - 1 \<and> int y = h - 1))
                                 [0..<nat w])
                [0..<nat h] (EState index0 (0, 0, 0, 255) 0 ?hdr)
        = encode_pixels (pixels_of src w (word_of_int c) (nat w) (nat h))
            (EState index0 (0, 0, 0, 255) 0 ?hdr)"
    unfolding flags pixels_of_def by (rule encode_rows [OF W])
  show ?thesis
    using pos assms(5) nb
    unfolding Encode_def Let_def bpp ub loop chunks_of_def
      encode_pixels_out [of _ index0 "(0, 0, 0, 255)" 0 ?hdr]
    by (auto simp: assms(4) qoiEnd_put)
qed

lemma cache_ok_init: "cache_ok index0 (0, 0, 0, 255) 0 index0"
  by (simp add: cache_ok_def index0_def index_pos_of_def qoi_COLOR_HASH_def)

lemma unat_of_nat_u32: "n < 2 ^ 32 \<Longrightarrow> unat (of_nat n :: u32) = n"
  by (simp add: unat_of_nat take_bit_nat_eq_self)

lemma Decode_after_header:
  assumes "1 \<le> w" "1 \<le> h" "c = 3 \<or> c = 4" "int (length src) = w * h * c"
    "w * h < qoiPixelsMax" "length src \<le> length dest" "length dest < 2 ^ 32"
  shows "Decode (qoiMagic @ put_u32 (word_of_int w) @ put_u32 (word_of_int h) @ [word_of_int c]
                @ [0] @ body) dest =
           (case decode_loop (nat h * nat w) (nat c)
                   (DState body (0, 0, 0, 255) index0 0 0 [] dest) of
              (e, st) \<Rightarrow>
                \<lparr>bytesWritten = uint ((of_nat (d_numDecodedPixels st) :: u32) * of_nat (nat c)),
                 res_width = word_of_int w, res_height = word_of_int h,
                 includesAlpha = (c = 4), err = e,
                 dest_after = d_done st @ d_dest st, reader_after = d_b st\<rparr>)"
    and "length src = nat h * nat w * nat c"
proof -
  define W H N cn where "W = nat w" and "H = nat h" and "N = H * W" and "cn = nat c"
  define bpp where "bpp = (word_of_int c :: byte)"
  from assms have wh: "w = int W" "h = int H" "c = int cn"
    by (auto simp: W_def H_def cn_def)
  have cn: "cn = 3 \<or> cn = 4" using assms(3) by (auto simp: cn_def)
  have bpp: "bpp = 3 \<or> bpp = 4" using assms(3) by (auto simp: bpp_def)
  have ubpp: "unat bpp = cn" using assms(3) by (auto simp: bpp_def cn_def)
  have len: "length src = H * W * cn"
  proof -
    have "int (length src) = int (H * W * cn)"
      by (simp add: assms(4) wh mult.commute)
    then show ?thesis by (simp only: of_nat_eq_iff)
  qed
  then show "length src = nat h * nat w * nat c"
    by (simp only: W_def H_def cn_def)
  have Npos: "0 < N" using assms(1,2) by (simp add: N_def W_def H_def)
  have "int N < qoiPixelsMax" using assms(5) by (simp add: N_def wh mult.commute)
  then have Nlt: "N < 2 ^ 32" by (simp add: qoiPixelsMax_def)
  have np: "(word_of_int w * word_of_int h :: u32) = of_nat N"
    by (simp add: wh N_def mult.commute)
  have unp: "unat (of_nat N :: u32) = N" by (rule unat_of_nat_u32 [OF Nlt])
  have np0: "(of_nat N :: u32) \<noteq> 0"
    using unp Npos by (metis less_numeral_extra(3) unat_0)
  have ucb: "(ucast bpp :: u32) = of_nat cn"
    using bpp ubpp by auto
  have ucn: "unat (of_nat cn :: u32) = cn" using cn by auto
  have uL: "unat (of_nat (length dest) :: u32) = length dest"
    by (rule unat_of_nat_u32 [OF assms(7)])
  have fits: "N * cn \<le> length dest" using assms(6) by (simp add: len N_def)
  have "N \<le> length dest div cn"
    using fits cn by (auto simp: less_eq_div_iff_mult_less_eq)
  then have chk: "\<not> (of_nat N :: u32) > of_nat (length dest) div of_nat cn"
    by (simp add: word_less_nat_alt unat_div uL ucn unp)
  have hdr: "DecodeHeader (qoiMagic @ put_u32 (word_of_int w) @ put_u32 (word_of_int h)
                @ [bpp] @ [0] @ body)
        = (Inr \<lparr>magic = qoiMagic, width = word_of_int w, height = word_of_int h,
                channels = bpp, colorspace = 0\<rparr>, body)"
    by (rule DecodeHeader_encoded [OF bpp])
  have alpha: "(bpp = 4) = (c = 4)" using assms(3) by (auto simp: bpp_def)
  show "Decode (qoiMagic @ put_u32 (word_of_int w) @ put_u32 (word_of_int h) @ [word_of_int c]
                @ [0] @ body) dest =
           (case decode_loop (nat h * nat w) (nat c)
                   (DState body (0, 0, 0, 255) index0 0 0 [] dest) of
              (e, st) \<Rightarrow>
                \<lparr>bytesWritten = uint ((of_nat (d_numDecodedPixels st) :: u32) * of_nat (nat c)),
                 res_width = word_of_int w, res_height = word_of_int h,
                 includesAlpha = (c = 4), err = e,
                 dest_after = d_done st @ d_dest st, reader_after = d_b st\<rparr>)"
    unfolding bpp_def [symmetric] Decode_def hdr W_def [symmetric] H_def [symmetric]
      cn_def [symmetric] N_def [symmetric]
    by (simp add: Let_def np np0 ucb chk unp ubpp alpha split: prod.splits)
qed

lemma Decode_encoded:
  assumes "1 \<le> w" "1 \<le> h" "c = 3 \<or> c = 4" "int (length src) = w * h * c"
    "w * h < qoiPixelsMax" "length src \<le> length dest" "length dest < 2 ^ 32"
  shows "Decode (qoiMagic @ put_u32 (word_of_int w) @ put_u32 (word_of_int h) @ [word_of_int c]
                @ [0] @ chunks_of src w h (word_of_int c) @ qoiEnd) dest =
           \<lparr>bytesWritten = int (length src), res_width = word_of_int w,
            res_height = word_of_int h, includesAlpha = (c = 4), err = None,
            dest_after = src @ drop (length src) dest, reader_after = qoiEnd\<rparr>"
proof -
  define W H N cn where "W = nat w" and "H = nat h" and "N = H * W" and "cn = nat c"
  define bpp where "bpp = (word_of_int c :: byte)"
  note dh = Decode_after_header [OF assms, folded W_def H_def cn_def N_def bpp_def]
  from assms have wh: "w = int W" "h = int H" "c = int cn"
    by (auto simp: W_def H_def cn_def)
  have bpp: "bpp = 3 \<or> bpp = 4" using assms(3) by (auto simp: bpp_def)
  have ubpp: "unat bpp = cn" using assms(3) by (auto simp: bpp_def cn_def)
  have len: "length src = N * cn" using dh(2) by (simp add: N_def)
  have fits: "N * cn \<le> length dest" using assms(6) by (simp add: len)
  have "N * cn < 2 ^ 32" using fits assms(7) by simp
  then have bw: "uint (of_nat N * of_nat cn :: u32) = int (length src)"
    by (simp add: len uint_nat unat_of_nat_u32 flip: of_nat_mult)
  have lp: "length (pixels_of src w bpp W H) = N"
    by (simp add: length_pixels_of N_def)
  have p1: "pixels_of src w bpp W H \<noteq> [] \<or> (0::nat) = 0" by simp
  have p2: "0 + 0 + length (pixels_of src w bpp W H) = N" by (simp add: lp)
  have p3: "cn * (0 + length (pixels_of src w bpp W H)) \<le> length dest"
    using fits by (simp add: lp mult.commute)
  from roundtrip_loop [OF cache_ok_init p1 p2 p3, of qoiEnd "[]"]
  obtain didx' where loop:
    "decode_loop N cn (DState (chunks_of src w h bpp @ qoiEnd) (0, 0, 0, 255) index0 0 0 [] dest)
       = (None, DState qoiEnd (last ((0, 0, 0, 255) # pixels_of src w bpp W H)) didx' 0 N
            (out_bytes cn (pixels_of src w bpp W H)) (drop (cn * N) dest))"
    unfolding chunks_of_def W_def [symmetric] H_def [symmetric] lp by auto
  have ob: "out_bytes cn (pixels_of src w bpp W H) = src"
    using out_bytes_pixels [OF bpp, of src H W] dh(2) by (simp add: ubpp wh)
  show ?thesis
    unfolding bpp_def [symmetric] dh(1) N_def [symmetric] loop
    by (simp add: ob bw) (simp add: len mult.commute)
qed

text \<open>
  C1 (as amended). For every pixel buffer with width and height at least 1, 3 or 4
  channels, length width * height * channels and fewer than 400,000,000 pixels,
  \<open>Encode\<close> returns a stream, and \<open>Decode\<close> of that stream into a destination at least as
  long as the buffer (and shorter than \<open>2^32\<close> bytes) succeeds, writes the buffer back byte
  for byte and leaves the rest of the destination alone, returns the same width and
  height, and reports alpha exactly when there are 4 channels.
\<close>

theorem round_trip:
  assumes "1 \<le> w" "1 \<le> h" "c = 3 \<or> c = 4" "int (length src) = w * h * c"
    "w * h < qoiPixelsMax" "length src \<le> length dest" "length dest < 2 ^ 32"
  shows "\<exists>stream. Encode src w h = Inr stream
           \<and> Decode stream dest =
               \<lparr>bytesWritten = int (length src), res_width = word_of_int w,
                res_height = word_of_int h, includesAlpha = (c = 4), err = None,
                dest_after = src @ drop (length src) dest, reader_after = qoiEnd\<rparr>
           \<and> uint (word_of_int w :: u32) = w \<and> uint (word_of_int h :: u32) = h"
proof -
  from assms(1,2) have "w \<le> w * h" "h \<le> w * h"
    by (simp_all add: mult_le_cancel_left1 mult_le_cancel_right2)
  with assms(1,2,5) have "0 \<le> w" "w < 4294967296" "0 \<le> h" "h < 4294967296"
    unfolding qoiPixelsMax_def by linarith+
  then have "uint (word_of_int w :: u32) = w" "uint (word_of_int h :: u32) = h"
    by (simp_all add: uint_word_of_int take_bit_int_eq_self)
  with Encode_ok [OF assms(1-5)] Decode_encoded [OF assms] show ?thesis
    by simp
qed

theorem round_trip_witness:
  "\<exists>stream. Encode [1, 2, 3, 255, 1, 2, 3, 255, 1, 2, 3, 254, 200, 100, 3, 254,
                     1, 2, 3, 255, 1, 2, 3, 254] 3 2 = Inr stream
      \<and> dest_after (Decode stream (replicate 30 7)) =
          [1, 2, 3, 255, 1, 2, 3, 255, 1, 2, 3, 254, 200, 100, 3, 254,
           1, 2, 3, 255, 1, 2, 3, 254] @ replicate 6 7"
  using round_trip [of 3 2 4 "[1, 2, 3, 255, 1, 2, 3, 255, 1, 2, 3, 254, 200, 100, 3, 254,
                     1, 2, 3, 255, 1, 2, 3, 254]" "replicate 30 7"]
  by (auto simp: qoiPixelsMax_def)

theorem round_trip_counterexample:
  "(1::int) \<le> 400000000 \<and> (1::int) \<le> 1
   \<and> int (length (replicate 1200000000 (0::byte))) = 400000000 * 1 * 3
   \<and> Encode (replicate 1200000000 0) 400000000 1 = Inl TooManyPixels"
  by (simp add: Encode_def qoiPixelsMax_def)

end
